theory Spec2Isabelle
  imports Main "HOL-Library.Word"
begin

unbundle bit_operations_syntax

section \<open>PharUtils.js: the Phar archive codec\<close>

text \<open>
  A shallow embedding of \<^verbatim>\<open>lib/pharutils.js\<close> (the 2018 revision, the first
  program text of the source file). The library handles binary data as JavaScript
  strings whose code units are octets (\<^verbatim>\<open>toUint8Array\<close> and
  \<^verbatim>\<open>fromUint8Array\<close> convert between both forms unit by unit), so a string is a
  \<^typ>\<open>string\<close> here: a list of 8-bit characters. JavaScript numbers are \<^typ>\<open>int\<close>;
  the 32-bit operators (\<^verbatim>\<open>|\<close>, \<^verbatim>\<open>&\<close>, \<^verbatim>\<open>^\<close>,
  \<^verbatim>\<open><<\<close>, \<^verbatim>\<open>>>\<close>, \<^verbatim>\<open>>>>\<close>) work on \<^typ>\<open>32 word\<close>, the bit
  pattern that ToInt32 and ToUint32 share. Every \<^verbatim>\<open>throw\<close> is a value of
  \<open>error\<close>.
\<close>

subsection \<open>Errors\<close>

datatype error =
    OutOfBounds                 \<comment> \<open>\<^verbatim>\<open>Buffer is accessed out of bounds!\<close>\<close>
  | StubInvalid                 \<comment> \<open>\<^verbatim>\<open>Stub is invalid!\<close>\<close>
  | UnknownSignatureGiven       \<comment> \<open>\<^verbatim>\<open>Unknown signature type given!\<close>\<close>
  | MagicCorrupt                \<comment> \<open>\<^verbatim>\<open>Phar is corrupted! (magic corrupt)\<close>\<close>
  | UnknownSignatureDetected    \<comment> \<open>\<^verbatim>\<open>Unknown signature type detected!\<close>\<close>
  | BrokenSignature             \<comment> \<open>\<^verbatim>\<open>Phar has a broken signature!\<close>\<close>
  | StubNotFound                \<comment> \<open>\<^verbatim>\<open>Stub not found!\<close>\<close>
  | FileCorrupt                 \<comment> \<open>\<^verbatim>\<open>Phar is corrupted! (file corrupt)\<close>\<close>
  | NoFiles                     \<comment> \<open>\<^verbatim>\<open>Phar must have at least one file!\<close>\<close>
  | RawInflateError             \<comment> \<open>\<^verbatim>\<open>Zlib.RawInflate error: ...\<close>\<close>
  | RawDeflateError             \<comment> \<open>\<^verbatim>\<open>Zlib.RawDeflate error: ...\<close>\<close>
  | UnsupportedCompression      \<comment> \<open>\<^verbatim>\<open>Unsupported compression type detected!\<close>\<close>
  | CompressionNotSupported int \<comment> \<open>\<^verbatim>\<open>(type) compression type is not supported!\<close>\<close>
  | PermissionIncorrect         \<comment> \<open>\<^verbatim>\<open>Permission flag is incorrect!\<close>\<close>
  | ReferenceError string       \<comment> \<open>the engine's error for reading an identifier that has no binding\<close>
  | TypeError string            \<comment> \<open>the engine's error for calling a property that is not a function\<close>

subsection \<open>The JavaScript primitives the library uses\<close>

text \<open>A string of the library is an octet string (\<open>string\<close>, code units below 256):
  that is what it reads from a buffer and writes to one. \<^verbatim>\<open>substring\<close> and
  \<^verbatim>\<open>indexOf\<close> work on the code units whatever they are, so they are given for any
  sequence.

  \<^verbatim>\<open>s.substring(a, b)\<close>: both indices are clamped to the string and swapped when
  they come in the wrong order.\<close>

definition substring :: "'a list \<Rightarrow> int \<Rightarrow> int \<Rightarrow> 'a list" where
  "substring s a b =
     (let n = int (length s);
          a' = max 0 (min a n);
          b' = max 0 (min b n);
          lo = min a' b';
          hi = max a' b'
      in take (nat (hi - lo)) (drop (nat lo) s))"

text \<open>\<^verbatim>\<open>s.substring(a)\<close>: to the end of the string.\<close>

definition substring_from :: "string \<Rightarrow> int \<Rightarrow> string" where
  "substring_from s a = substring s a (int (length s))"

text \<open>\<^verbatim>\<open>s.indexOf(t)\<close>: the least position where \<open>t\<close> starts, or \<open>-1\<close>.\<close>

fun indexOf_at :: "nat \<Rightarrow> 'a list \<Rightarrow> 'a list \<Rightarrow> int" where
  "indexOf_at k [] t = (if t = [] then int k else -1)"
| "indexOf_at k (c # cs) t =
     (if take (length t) (c # cs) = t then int k else indexOf_at (Suc k) cs t)"

definition indexOf :: "'a list \<Rightarrow> 'a list \<Rightarrow> int" where
  "indexOf s t = indexOf_at 0 s t"

text \<open>\<^verbatim>\<open>s.charCodeAt(i)\<close>: the code unit, or NaN (\<open>None\<close>) outside the string.\<close>

definition charCodeAt :: "string \<Rightarrow> nat \<Rightarrow> nat option" where
  "charCodeAt s i = (if i < length s then Some (of_char (s ! i)) else None)"

text \<open>ToInt32 for the operand of a bitwise operator: NaN becomes 0.\<close>

definition toInt32 :: "nat option \<Rightarrow> 32 word" where
  "toInt32 v = (case v of None \<Rightarrow> 0 | Some c \<Rightarrow> word_of_nat c)"

text \<open>\<^verbatim>\<open>s.toLowerCase()\<close> on an octet string only: the Latin-1 capital letters
  (\<open>A\<close> to \<open>Z\<close>, and U+00C0 to U+00DE without the multiplication sign U+00D7) move
  up by 32; every other unit stays. On a string with code units above U+00FF the
  engine's \<^verbatim>\<open>toLowerCase\<close> is not a map over the units and does not keep the length;
  for \<^verbatim>\<open>setStub\<close> on such a string see \<open>setStub_utf16\<close> below.\<close>

definition toLowerCase_char :: "char \<Rightarrow> char" where
  "toLowerCase_char c =
     (let n = (of_char c :: nat)
      in if (65 \<le> n \<and> n \<le> 90) \<or> (192 \<le> n \<and> n \<le> 222 \<and> n \<noteq> 215)
         then char_of (n + 32) else c)"

definition toLowerCase :: "string \<Rightarrow> string" where
  "toLowerCase s = map toLowerCase_char s"

subsection \<open>Constants\<close>

definition COMPRESSION_NONE :: int where "COMPRESSION_NONE = 0x0000"
definition COMPRESSION_GZ :: int where "COMPRESSION_GZ = 0x1000"
definition COMPRESSION_BZIP2 :: int where "COMPRESSION_BZIP2 = 0x2000"
definition SUPPORTED_COMPRESSION :: "int list" where
  "SUPPORTED_COMPRESSION = [0x0000, 0x1000]"

definition SIGNATURE_MD5 :: int where "SIGNATURE_MD5 = 0x01"
definition SIGNATURE_SHA1 :: int where "SIGNATURE_SHA1 = 0x02"
definition SIGNATURE_SHA256 :: int where "SIGNATURE_SHA256 = 0x04"
definition SIGNATURE_SHA512 :: int where "SIGNATURE_SHA512 = 0x08"

definition END_MAGIC :: string where
  "END_MAGIC = ''GBMB''"

definition STUB_END :: string where
  "STUB_END = ''__HALT_COMPILER(); ?>'' @ [CHR 0x0D, CHR 0x0A]"

subsection \<open>Binary: little-endian numbers\<close>

text \<open>\<^verbatim>\<open>num |= buffer.charCodeAt(i) << (8 * i)\<close> for \<open>i\<close> from 0 to 3, then
  \<^verbatim>\<open>num >>> 0\<close>: the unsigned reading of the 32-bit pattern.\<close>

definition readLInt :: "string \<Rightarrow> int" where
  "readLInt buffer =
     uint (fold (\<lambda>i num. num OR push_bit (8 * i) (toInt32 (charCodeAt buffer i)))
             [0, 1, 2, 3] (0 :: 32 word))"

text \<open>\<^verbatim>\<open>String.fromCharCode((num >> (8 * i)) & 0xff)\<close> for \<open>i\<close> from 0 to 3; the
  shift is the arithmetic one on ToInt32 of \<open>num\<close>.\<close>

definition writeLInt :: "int \<Rightarrow> string" where
  "writeLInt num =
     map (\<lambda>i. char_of (unat (signed_drop_bit (8 * i) (word_of_int num :: 32 word) AND 0xff)))
       [0, 1, 2, 3]"

text \<open>The 16-bit reader has no \<^verbatim>\<open>>>> 0\<close>: it returns the signed reading (which is
  never negative, two octets fill 16 bits only).\<close>

definition readLShort :: "string \<Rightarrow> int" where
  "readLShort buffer =
     sint (fold (\<lambda>i num. num OR push_bit (8 * i) (toInt32 (charCodeAt buffer i)))
             [0, 1] (0 :: 32 word))"

definition writeLShort :: "int \<Rightarrow> string" where
  "writeLShort num =
     map (\<lambda>i. char_of (unat (signed_drop_bit (8 * i) (word_of_int num :: 32 word) AND 0xff)))
       [0, 1]"

subsection \<open>BinaryBuffer: the cursor\<close>

record BinaryBuffer =
  buffer :: string
  offset :: int

text \<open>\<^verbatim>\<open>new PharUtils.BinaryBuffer(buffer)\<close>\<close>

definition BinaryBuffer_new :: "string \<Rightarrow> BinaryBuffer" where
  "BinaryBuffer_new s = \<lparr>buffer = s, offset = 0\<rparr>"

text \<open>A method that may throw returns the error or the value, and the buffer as the
  call left it: \<^verbatim>\<open>get\<close> moves the offset before it checks the bound.\<close>

definition get :: "int \<Rightarrow> BinaryBuffer \<Rightarrow> (error + string) \<times> BinaryBuffer" where
  "get len b =
     (let len1 = (if len < 0 then max 0 (int (length (buffer b)) - offset b) else len)
      in if len1 = 0 then (Inr [], b)
         else let b' = b\<lparr>offset := offset b + len1\<rparr>
              in if offset b' > int (length (buffer b')) then (Inl OutOfBounds, b')
                 else (Inr (substring (buffer b') (offset b' - len1) (offset b')), b'))"

definition put :: "string \<Rightarrow> BinaryBuffer \<Rightarrow> BinaryBuffer" where
  "put data b = b\<lparr>buffer := buffer b @ data\<rparr>"

definition getLInt :: "BinaryBuffer \<Rightarrow> (error + int) \<times> BinaryBuffer" where
  "getLInt b =
     (case get 4 b of
        (Inl e, b') \<Rightarrow> (Inl e, b')
      | (Inr s, b') \<Rightarrow> (Inr (readLInt s), b'))"

definition putLInt :: "int \<Rightarrow> BinaryBuffer \<Rightarrow> BinaryBuffer" where
  "putLInt number b = put (writeLInt number) b"

definition getLShort :: "BinaryBuffer \<Rightarrow> (error + int) \<times> BinaryBuffer" where
  "getLShort b =
     (case get 2 b of
        (Inl e, b') \<Rightarrow> (Inl e, b')
      | (Inr s, b') \<Rightarrow> (Inr (readLShort s), b'))"

definition putLShort :: "int \<Rightarrow> BinaryBuffer \<Rightarrow> BinaryBuffer" where
  "putLShort number b = put (writeLShort number) b"

definition getString :: "BinaryBuffer \<Rightarrow> (error + string) \<times> BinaryBuffer" where
  "getString b =
     (case getLInt b of
        (Inl e, b') \<Rightarrow> (Inl e, b')
      | (Inr n, b') \<Rightarrow> get n b')"

definition putString :: "string \<Rightarrow> BinaryBuffer \<Rightarrow> BinaryBuffer" where
  "putString data b = put data (putLInt (int (length data)) b)"

subsection \<open>Sequencing calls that may throw\<close>

text \<open>\<open>thenB r k\<close>: go on with \<open>k\<close> after a buffer method, or stop at its error.
  \<open>thenE\<close> does the same for a call that leaves no buffer behind.\<close>

definition thenB :: "(error + 'a) \<times> BinaryBuffer \<Rightarrow> ('a \<Rightarrow> BinaryBuffer \<Rightarrow> error + 'r) \<Rightarrow> error + 'r" where
  "thenB r k = (case r of (Inl e, b) \<Rightarrow> Inl e | (Inr x, b) \<Rightarrow> k x b)"

definition thenE :: "error + 'a \<Rightarrow> ('a \<Rightarrow> error + 'r) \<Rightarrow> error + 'r" where
  "thenE r k = (case r of Inl e \<Rightarrow> Inl e | Inr x \<Rightarrow> k x)"

subsection \<open>crc32\<close>

text \<open>One round of the table's inner loop:
  \<^verbatim>\<open>c = ((c & 1) ? (0xEDB88320 ^ (c >>> 1)) : (c >>> 1))\<close>.\<close>

definition crc_round :: "32 word \<Rightarrow> 32 word" where
  "crc_round c = (if c AND 1 \<noteq> 0 then 0xEDB88320 XOR drop_bit 1 c else drop_bit 1 c)"

definition makeCRCTable :: "32 word list" where
  "makeCRCTable = map (\<lambda>n. (crc_round ^^ 8) (word_of_nat n)) [0..<256]"

text \<open>The table is made once and kept in \<^verbatim>\<open>window.PharUtils_crcTable\<close>; every call
  reads what \<^verbatim>\<open>makeCRCTable\<close> returned. The loop is
  \<^verbatim>\<open>crc = (crc >>> 8) ^ crcTable[(crc ^ str.charCodeAt(i)) & 0xFF]\<close> from
  \<^verbatim>\<open>0 ^ (-1)\<close>, and the result \<^verbatim>\<open>(crc ^ (-1)) >>> 0\<close>.\<close>

definition crc32 :: "string \<Rightarrow> int" where
  "crc32 str =
     (let crcTable = makeCRCTable;
          crc = fold (\<lambda>ch crc. drop_bit 8 crc XOR
                        crcTable ! unat ((crc XOR word_of_nat (of_char ch)) AND 0xFF))
                  str (0 XOR (- 1))
      in uint (crc XOR (- 1)))"

subsection \<open>The libraries the file requires\<close>

text \<open>\<^verbatim>\<open>toUint8Array\<close> and \<^verbatim>\<open>fromUint8Array\<close>, unit by unit.\<close>

definition toUint8Array :: "string \<Rightarrow> 8 word list" where
  "toUint8Array str = map (\<lambda>c. word_of_nat (of_char c)) str"

definition fromUint8Array :: "8 word list \<Rightarrow> string" where
  "fromUint8Array u8a = map (\<lambda>w. char_of (unat w)) u8a"

text \<open>\<^verbatim>\<open>Zlib.RawInflate\<close> and \<^verbatim>\<open>Zlib.RawDeflate\<close> (zlib.js) are parameters:
  \<open>None\<close> when the engine throws. \<^verbatim>\<open>Hashes\<close> (jshashes) gives the four
  \<^verbatim>\<open>raw\<close> digest functions.\<close>

record Zlib =
  RawInflate :: "8 word list \<Rightarrow> 8 word list option"
  RawDeflate :: "8 word list \<Rightarrow> 8 word list option"

record Hashes =
  MD5 :: "string \<Rightarrow> string"
  SHA1 :: "string \<Rightarrow> string"
  SHA256 :: "string \<Rightarrow> string"
  SHA512 :: "string \<Rightarrow> string"

text \<open>The identifiers \<^verbatim>\<open>time\<close> and \<^verbatim>\<open>perm\<close> are declared nowhere in the
  file: where the code reads them, the engine looks them up in the global scope. \<open>None\<close>
  is a scope without the binding (the library on its own defines neither), and a read
  throws a ReferenceError there.\<close>

record Globals =
  time :: "int option"
  perm :: "int option"

definition no_globals :: Globals where
  "no_globals = \<lparr>time = None, perm = None\<rparr>"

subsection \<open>PharFile\<close>

record PharFile =
  name :: string
  contents :: string
  compression_type :: int
  timestamp :: int
  permission :: int
  metadata :: string

record PharFile_options =
  opt_compression_type :: "int option"
  opt_is_compressed :: "bool option"
  opt_timestamp :: "int option"
  opt_metadata :: "string option"
  opt_permission :: "int option"

text \<open>\<^verbatim>\<open>x || d\<close> on an optional number and on an optional string: a missing value,
  \<open>0\<close> and the empty string all give the default.\<close>

definition or_num :: "int option \<Rightarrow> int \<Rightarrow> int" where
  "or_num x d = (case x of None \<Rightarrow> d | Some v \<Rightarrow> if v = 0 then d else v)"

definition or_str :: "string option \<Rightarrow> string \<Rightarrow> string" where
  "or_str x d = (case x of None \<Rightarrow> d | Some v \<Rightarrow> if v = [] then d else v)"

definition or_bool :: "bool option \<Rightarrow> bool \<Rightarrow> bool" where
  "or_bool x d = (case x of None \<Rightarrow> d | Some v \<Rightarrow> if v then v else d)"

definition setCompressionType :: "int \<Rightarrow> PharFile \<Rightarrow> error + PharFile" where
  "setCompressionType type f =
     (if type \<notin> set SUPPORTED_COMPRESSION then Inl (CompressionNotSupported type)
      else Inr (f\<lparr>compression_type := type\<rparr>))"

definition setContents :: "Zlib \<Rightarrow> string \<Rightarrow> bool \<Rightarrow> PharFile \<Rightarrow> error + PharFile" where
  "setContents z cs is_compressed f =
     (if is_compressed then
        (if compression_type f = COMPRESSION_NONE then Inr (f\<lparr>contents := cs\<rparr>)
         else if compression_type f = COMPRESSION_GZ then
           (case RawInflate z (toUint8Array cs) of
              None \<Rightarrow> Inl RawInflateError
            | Some u \<Rightarrow> Inr (f\<lparr>contents := fromUint8Array u\<rparr>))
         else Inl UnsupportedCompression)
      else Inr (f\<lparr>contents := cs\<rparr>))"

definition getCompressedContents :: "Zlib \<Rightarrow> PharFile \<Rightarrow> error + string" where
  "getCompressedContents z f =
     (if compression_type f = COMPRESSION_GZ then
        (case RawDeflate z (toUint8Array (contents f)) of
           None \<Rightarrow> Inl RawDeflateError
         | Some u \<Rightarrow> Inr (fromUint8Array u))
      else Inr (contents f))"

definition getSize :: "PharFile \<Rightarrow> int" where
  "getSize f = int (length (contents f))"

text \<open>\<^verbatim>\<open>if (permission > 4095 || perm < 0) throw ...\<close>: the right operand reads the
  identifier \<^verbatim>\<open>perm\<close>, which is not the parameter; it is evaluated only when the left
  operand is false.\<close>

definition setPermission :: "Globals \<Rightarrow> int \<Rightarrow> PharFile \<Rightarrow> error + PharFile" where
  "setPermission g p f =
     (if p > 4095 then Inl PermissionIncorrect
      else case perm g of
             None \<Rightarrow> Inl (ReferenceError ''perm'')
           | Some v \<Rightarrow> if v < 0 then Inl PermissionIncorrect
                       else Inr (f\<lparr>permission := p\<rparr>))"

text \<open>\<^verbatim>\<open>this.permission | this.compression_type\<close>\<close>

definition getPharFlags :: "PharFile \<Rightarrow> int" where
  "getPharFlags f =
     sint ((word_of_int (permission f) :: 32 word) OR word_of_int (compression_type f))"

text \<open>\<^verbatim>\<open>if (time < 0) { time = Date.now() / 1000 | 0; }  this.timestamp = timestamp;\<close>
  The test and the assignment are on the identifier \<^verbatim>\<open>time\<close>, not on the parameter.
  \<open>now\<close> is the value of \<^verbatim>\<open>Date.now() / 1000 | 0\<close> at the call.\<close>

definition setTimestamp :: "Globals \<Rightarrow> int \<Rightarrow> int \<Rightarrow> PharFile \<Rightarrow> error + Globals \<times> PharFile" where
  "setTimestamp g now t f =
     (case time g of
        None \<Rightarrow> Inl (ReferenceError ''time'')
      | Some v \<Rightarrow> Inr (if v < 0 then g\<lparr>time := Some now\<rparr> else g, f\<lparr>timestamp := t\<rparr>))"

text \<open>\<^verbatim>\<open>new PharUtils.PharFile(name, contents, options)\<close>. The fields of the new
  object are assigned in the constructor's order; none is read before it is assigned.\<close>

definition PharFile_new ::
  "Globals \<Rightarrow> int \<Rightarrow> Zlib \<Rightarrow> string \<Rightarrow> string \<Rightarrow> PharFile_options \<Rightarrow> error + Globals \<times> PharFile" where
  "PharFile_new g now z nm cs options =
     (let this = \<lparr>name = or_str (Some nm) ''newfile'', contents = [], compression_type = 0,
                  timestamp = 0, permission = 0, metadata = []\<rparr>
      in thenE (setCompressionType (or_num (opt_compression_type options) COMPRESSION_NONE) this)
           (\<lambda>this.
         thenE (setContents z (or_str (Some cs) []) (or_bool (opt_is_compressed options) False) this)
           (\<lambda>this.
         thenE (setTimestamp g now (or_num (opt_timestamp options) (- 1)) this)
           (\<lambda>(g, this).
         thenE (setPermission g (or_num (opt_permission options) 438) this)
           (\<lambda>this.
         Inr (g, this\<lparr>metadata := or_str (opt_metadata options) []\<rparr>))))))"

subsection \<open>Phar\<close>

text \<open>\<^verbatim>\<open>this.files\<close> is the empty plain object \<^verbatim>\<open>{ }\<close> after
  \<^verbatim>\<open>setFiles\<close> cleared it, and an array after \<^verbatim>\<open>loadPharData\<close> started one.
  An array keeps a hole (\<open>None\<close>) where \<^verbatim>\<open>delete this.files[i]\<close> removed an
  element; its \<^verbatim>\<open>length\<close> counts the holes, \<^verbatim>\<open>for (var i in this.files)\<close> skips
  them.\<close>

datatype file_store = FilesObject | FilesArray "PharFile option list"

record Phar =
  stub :: string
  phar_alias :: string
  signature_type :: int
  phar_metadata :: string
  files :: file_store
  flags :: int
  manifest_api :: int

record Phar_options =
  opt_alias :: "string option"
  opt_stub :: "string option"
  opt_signature_type :: "int option"
  opt_phar_metadata :: "string option"
  opt_files :: "PharFile list option"
  opt_flags :: "int option"
  opt_manifest_api :: "int option"

text \<open>The elements a \<^verbatim>\<open>for ... in\<close> loop over the array visits, in index order.\<close>

fun entries :: "PharFile option list \<Rightarrow> PharFile list" where
  "entries [] = []"
| "entries (None # xs) = entries xs"
| "entries (Some f # xs) = f # entries xs"

text \<open>\<^verbatim>\<open>setStub\<close> with an octet string, as the constructor calls it with the default
  stub. For a string of the caller's with wider code units see \<open>setStub_utf16\<close>.\<close>

definition setStub :: "string \<Rightarrow> Phar \<Rightarrow> error + Phar" where
  "setStub s P =
     (let pos = indexOf (toLowerCase s) ''__halt_compiler();''
      in if pos = - 1 then Inl StubInvalid
         else Inr (P\<lparr>stub := substring s 0 pos @ STUB_END\<rparr>))"

definition getStub :: "Phar \<Rightarrow> string" where
  "getStub P = stub P"

definition setSignatureType :: "int \<Rightarrow> Phar \<Rightarrow> error + Phar" where
  "setSignatureType type P =
     (if type \<noteq> SIGNATURE_MD5 \<and> type \<noteq> SIGNATURE_SHA1 \<and> type \<noteq> SIGNATURE_SHA256
         \<and> type \<noteq> SIGNATURE_SHA512
      then Inl UnknownSignatureGiven
      else Inr (P\<lparr>signature_type := type\<rparr>))"

text \<open>\<^verbatim>\<open>delete this.files[i]; break;\<close> at the first element of that name.\<close>

fun delete_first :: "string \<Rightarrow> PharFile option list \<Rightarrow> PharFile option list" where
  "delete_first n [] = []"
| "delete_first n (None # xs) = None # delete_first n xs"
| "delete_first n (Some f # xs) =
     (if name f = n then None # xs else Some f # delete_first n xs)"

definition removeFile :: "string \<Rightarrow> Phar \<Rightarrow> Phar" where
  "removeFile n P =
     (case files P of
        FilesObject \<Rightarrow> P
      | FilesArray xs \<Rightarrow> P\<lparr>files := FilesArray (delete_first n xs)\<rparr>)"

text \<open>\<^verbatim>\<open>this.removeFile(file.getName()); this.files.push(file);\<close> A plain object has
  no \<^verbatim>\<open>push\<close>. (Every value of \<open>PharFile\<close> is an instance of the class, so the
  \<^verbatim>\<open>instanceof\<close> test holds.)\<close>

definition addFile :: "PharFile \<Rightarrow> Phar \<Rightarrow> error + Phar" where
  "addFile file P =
     (let P' = removeFile (name file) P
      in case files P' of
           FilesObject \<Rightarrow> Inl (TypeError ''this.files.push is not a function'')
         | FilesArray xs \<Rightarrow> Inr (P'\<lparr>files := FilesArray (xs @ [Some file])\<rparr>))"

definition getFile :: "string \<Rightarrow> Phar \<Rightarrow> PharFile option" where
  "getFile n P =
     (case files P of
        FilesObject \<Rightarrow> None
      | FilesArray xs \<Rightarrow> find (\<lambda>f. name f = n) (entries xs))"

definition getFiles :: "Phar \<Rightarrow> error + PharFile option list" where
  "getFiles P =
     (case files P of
        FilesObject \<Rightarrow> Inl (TypeError ''this.files.slice is not a function'')
      | FilesArray xs \<Rightarrow> Inr xs)"

fun addFiles :: "PharFile list \<Rightarrow> Phar \<Rightarrow> error + Phar" where
  "addFiles [] P = Inr P"
| "addFiles (f # fs) P = thenE (addFile f P) (addFiles fs)"

definition setFiles :: "PharFile list \<Rightarrow> Phar \<Rightarrow> error + Phar" where
  "setFiles fs P = addFiles fs (P\<lparr>files := FilesObject\<rparr>)"

text \<open>\<^verbatim>\<open>this.files.length\<close>: \<open>None\<close> is \<^verbatim>\<open>undefined\<close>, what a plain object
  answers.\<close>

definition getFilesCount :: "Phar \<Rightarrow> int option" where
  "getFilesCount P =
     (case files P of
        FilesObject \<Rightarrow> None
      | FilesArray xs \<Rightarrow> Some (int (length xs)))"

text \<open>\<^verbatim>\<open>new PharUtils.Phar(options)\<close>\<close>

definition Phar_new :: "Phar_options \<Rightarrow> error + Phar" where
  "Phar_new options =
     (let this = \<lparr>stub = [], phar_alias = or_str (opt_alias options) [], signature_type = 0,
                  phar_metadata = [], files = FilesObject, flags = 0, manifest_api = 0\<rparr>
      in thenE (setStub (or_str (opt_stub options) (''<?php '' @ STUB_END)) this)
           (\<lambda>this.
         thenE (setSignatureType (or_num (opt_signature_type options) SIGNATURE_SHA1) this)
           (\<lambda>this.
         thenE (setFiles (case opt_files options of None \<Rightarrow> [] | Some fs \<Rightarrow> fs)
                  (this\<lparr>phar_metadata := or_str (opt_phar_metadata options) []\<rparr>))
           (\<lambda>this.
         Inr (this\<lparr>flags := or_num (opt_flags options) 0x10000,
                    manifest_api := or_num (opt_manifest_api options) 17\<rparr>)))))"

definition no_options :: Phar_options where
  "no_options = \<lparr>opt_alias = None, opt_stub = None, opt_signature_type = None,
                  opt_phar_metadata = None, opt_files = None, opt_flags = None,
                  opt_manifest_api = None\<rparr>"

text \<open>What \<^verbatim>\<open>new PharUtils.Phar()\<close> returns (lemma \<open>Phar_new_no_options\<close>).\<close>

definition fresh_Phar :: Phar where
  "fresh_Phar =
     \<lparr>stub = ''<?php '' @ STUB_END, phar_alias = [], signature_type = 2,
      phar_metadata = [], files = FilesObject, flags = 0x10000, manifest_api = 17\<rparr>"

subsection \<open>savePharData\<close>

text \<open>Phar contents come and go as a string or as a \<^verbatim>\<open>Uint8Array\<close>.\<close>

datatype phar_data = Str string | U8a "8 word list"

text \<open>The body of the loop over the files: one manifest entry, and the (compressed)
  contents appended to \<^verbatim>\<open>all_contents\<close>.\<close>

fun save_files :: "Zlib \<Rightarrow> PharFile list \<Rightarrow> BinaryBuffer \<times> string \<Rightarrow> error + BinaryBuffer \<times> string" where
  "save_files z [] (manifest_buffer, all_contents) = Inr (manifest_buffer, all_contents)"
| "save_files z (file # fs) (manifest_buffer, all_contents) =
     thenE (getCompressedContents z file)
       (\<lambda>cs.
          let m1 = putString (name file) manifest_buffer;
              m2 = putLInt (getSize file) m1;
              m3 = putLInt (timestamp file) m2;
              m4 = putLInt (int (length cs)) m3;
              m5 = putLInt (crc32 (contents file)) m4;
              m6 = putLInt (getPharFlags file) m5;
              m7 = putString (metadata file) m6
          in save_files z fs (m7, all_contents @ cs))"

text \<open>The \<^verbatim>\<open>switch\<close> on the signature type in \<^verbatim>\<open>savePharData\<close>.\<close>

definition save_hasher :: "Hashes \<Rightarrow> int \<Rightarrow> (string \<Rightarrow> string) option" where
  "save_hasher h type =
     (if type = SIGNATURE_MD5 then Some (MD5 h)
      else if type = SIGNATURE_SHA1 then Some (SHA1 h)
      else if type = SIGNATURE_SHA256 then Some (SHA256 h)
      else if type = SIGNATURE_SHA512 then Some (SHA512 h)
      else None)"

definition savePharData :: "Zlib \<Rightarrow> Hashes \<Rightarrow> bool \<Rightarrow> Phar \<Rightarrow> error + phar_data" where
  "savePharData z h as_u8a P =
     (case getFilesCount P of
        None \<Rightarrow> Inl NoFiles
      | Some n \<Rightarrow>
          if n = 0 then Inl NoFiles
          else
            let b1 = put (stub P) (BinaryBuffer_new []);
                m1 = putLInt n (BinaryBuffer_new []);
                m2 = putLShort (manifest_api P) m1;
                m3 = putLInt (flags P) m2;
                m4 = putString (phar_alias P) m3;
                m5 = putString (phar_metadata P) m4
            in thenE (save_files z (case files P of FilesObject \<Rightarrow> [] | FilesArray xs \<Rightarrow> entries xs)
                        (m5, []))
                 (\<lambda>(manifest_buffer, all_contents).
                    let b2 = putString (buffer manifest_buffer) b1;
                        b3 = put all_contents b2
                    in case save_hasher h (signature_type P) of
                         None \<Rightarrow> Inl UnknownSignatureDetected
                       | Some hasher \<Rightarrow>
                           let hash = hasher (buffer b3);
                               b4 = put hash b3;
                               b5 = putLInt (signature_type P) b4;
                               b6 = put END_MAGIC b5
                           in Inr (if as_u8a then U8a (toUint8Array (buffer b6))
                                   else Str (buffer b6))))"

subsection \<open>loadPharData\<close>

text \<open>The \<^verbatim>\<open>switch\<close> on the signature type in \<^verbatim>\<open>loadPharData\<close>: the length
  of the digest and the hasher.\<close>

definition load_hasher :: "Hashes \<Rightarrow> int \<Rightarrow> (int \<times> (string \<Rightarrow> string)) option" where
  "load_hasher h type =
     (if type = SIGNATURE_MD5 then Some (16, MD5 h)
      else if type = SIGNATURE_SHA1 then Some (20, SHA1 h)
      else if type = SIGNATURE_SHA256 then Some (32, SHA256 h)
      else if type = SIGNATURE_SHA512 then Some (64, SHA512 h)
      else None)"

text \<open>One round of the loop over the manifest's files. The state is the global scope,
  the manifest's cursor, the contents' cursor and the archive.\<close>

definition load_file ::
  "int \<Rightarrow> Zlib \<Rightarrow> Globals \<times> BinaryBuffer \<times> BinaryBuffer \<times> Phar
     \<Rightarrow> error + Globals \<times> BinaryBuffer \<times> BinaryBuffer \<times> Phar" where
  "load_file now z st =
     (case st of (g, manifest_buffer, buffer0, this) \<Rightarrow>
        thenB (getString manifest_buffer) (\<lambda>filename m1.
        let m2 = m1\<lparr>offset := offset m1 + 4\<rparr>
        in thenB (getLInt m2) (\<lambda>ts m3.
           thenB (getLInt m3) (\<lambda>size m4.
           thenB (getLInt m4) (\<lambda>readed_crc32 m5.
           thenB (getLInt m5) (\<lambda>fl m6.
           thenB (getString m6) (\<lambda>md m7.
           let options = \<lparr>opt_compression_type = Some (sint ((word_of_int fl :: 32 word) AND 0xf000)),
                           opt_is_compressed = Some True,
                           opt_timestamp = Some ts,
                           opt_metadata = Some md,
                           opt_permission = Some (sint ((word_of_int fl :: 32 word) AND 0xfff))\<rparr>
           in thenB (get size buffer0) (\<lambda>cs b1.
              thenE (PharFile_new g now z filename cs options) (\<lambda>(g1, file).
              if readed_crc32 \<noteq> crc32 (contents file) then Inl FileCorrupt
              else thenE (addFile file this) (\<lambda>this1.
                   Inr (g1, m7, b1, this1)))))))))))"

fun load_files ::
  "nat \<Rightarrow> int \<Rightarrow> Zlib \<Rightarrow> Globals \<times> BinaryBuffer \<times> BinaryBuffer \<times> Phar
     \<Rightarrow> error + Globals \<times> BinaryBuffer \<times> BinaryBuffer \<times> Phar" where
  "load_files 0 now z st = Inr st"
| "load_files (Suc n) now z st = thenE (load_file now z st) (load_files n now z)"

text \<open>\<^verbatim>\<open>if (buffer instanceof Uint8Array) { buffer = fromUint8Array(buffer); }\<close>\<close>

definition as_string :: "phar_data \<Rightarrow> string" where
  "as_string data = (case data of U8a u \<Rightarrow> fromUint8Array u | Str s \<Rightarrow> s)"

text \<open>\<open>loadPharData g now z h data this\<close>: the archive \<open>this\<close> after loading \<open>data\<close>,
  with the global scope the constructors left, or the error thrown. The function is
  written in two parts: \<open>load_manifest\<close> is everything after the signature test, from
  \<^verbatim>\<open>var stub_len = buffer.indexOf(PharUtils.STUB_END)\<close> on, with the signed region
  for \<^verbatim>\<open>buffer\<close>.\<close>

definition load_manifest :: "Globals \<Rightarrow> int \<Rightarrow> Zlib \<Rightarrow> string \<Rightarrow> Phar \<Rightarrow> error + Globals \<times> Phar" where
  "load_manifest g now z buffer1 this =
     (let stub_len0 = indexOf buffer1 STUB_END
      in if stub_len0 = - 1 then Inl StubNotFound
         else
           let stub_len = stub_len0 + int (length STUB_END)
           in thenB (get stub_len (BinaryBuffer_new buffer1)) (\<lambda>st b1.
              thenB (getString b1) (\<lambda>man b2.
              thenB (getLInt (BinaryBuffer_new man)) (\<lambda>files_count m1.
              thenB (getLShort m1) (\<lambda>api m2.
              thenB (getLInt m2) (\<lambda>fl m3.
              thenB (getString m3) (\<lambda>al m4.
              thenB (getString m4) (\<lambda>md m5.
              thenE (load_files (nat files_count) now z
                       (g, m5, b2,
                        this\<lparr>stub := st, manifest_api := api, flags := fl,
                             phar_alias := al, phar_metadata := md,
                             files := FilesArray []\<rparr>))
                (\<lambda>(g1, m6, b3, this1). Inr (g1, this1))))))))))"

definition loadPharData ::
  "Globals \<Rightarrow> int \<Rightarrow> Zlib \<Rightarrow> Hashes \<Rightarrow> phar_data \<Rightarrow> Phar \<Rightarrow> error + Globals \<times> Phar" where
  "loadPharData g now z h data this =
     (let buffer0 = as_string data;
          pos0 = int (length buffer0) - 4
      in if substring_from buffer0 pos0 \<noteq> END_MAGIC then Inl MagicCorrupt
         else
           let pos = pos0 - 4;
               type = readLInt (substring buffer0 pos (pos + 4))
           in case load_hasher h type of
                None \<Rightarrow> Inl UnknownSignatureDetected
              | Some (hash_len, hasher) \<Rightarrow>
                  let hash = substring buffer0 (pos - hash_len) pos;
                      buffer1 = substring buffer0 0 (pos - hash_len)
                  in if hasher buffer1 \<noteq> hash then Inl BrokenSignature
                     else load_manifest g now z buffer1 this)"

subsection \<open>setStub on a string of 16-bit code units\<close>

text \<open>\<^verbatim>\<open>setStub\<close> is handed a string of the caller's, and a JavaScript string is a
  sequence of 16-bit code units. \<open>code_units s\<close> is the octet string \<open>s\<close> as such a
  sequence. On these strings \<^verbatim>\<open>toLowerCase\<close> is the engine's function on whole strings
  (the default case conversion of Unicode), which does not keep the positions: U+0130
  becomes the two units U+0069 U+0307. It is the parameter \<open>lower\<close>.
  \<open>setStub_utf16 lower s\<close> is what the call \<^verbatim>\<open>setStub(s)\<close> assigns to \<^verbatim>\<open>this.stub\<close>, or
  the error it throws: the position is found in the lowered string and the string itself
  is cut there.\<close>

type_synonym utf16 = "16 word list"

definition code_units :: "string \<Rightarrow> utf16" where
  "code_units s = map (\<lambda>c. word_of_nat (of_char c)) s"

definition setStub_utf16 :: "(utf16 \<Rightarrow> utf16) \<Rightarrow> utf16 \<Rightarrow> error + utf16" where
  "setStub_utf16 lower s =
     (let pos = indexOf (lower s) (code_units ''__halt_compiler();'')
      in if pos = - 1 then Inl StubInvalid
         else Inr (substring s 0 pos @ code_units STUB_END))"

text \<open>What ECMAScript fixes about \<^verbatim>\<open>toLowerCase\<close> on a string whose code units are all
  below 256: it is \<open>toLowerCase\<close> above, unit by unit.\<close>

definition latin1_toLowerCase :: "(utf16 \<Rightarrow> utf16) \<Rightarrow> bool" where
  "latin1_toLowerCase lower = (\<forall>s. lower (code_units s) = code_units (toLowerCase s))"

subsection \<open>Words of the specification about strings\<close>

text \<open>\<open>occurs_at t j s\<close>: the string \<open>t\<close> stands in \<open>s\<close> at position \<open>j\<close>.
  \<open>token_at j s\<close>: the token \<^verbatim>\<open>__halt_compiler();\<close> stands in \<open>s\<close> at position
  \<open>j\<close>, in any mix of upper and lower case. \<open>has_token s\<close>: it stands somewhere;
  \<open>first_token k s\<close>: \<open>k\<close> is the first such position.\<close>

definition halt_token :: string where
  "halt_token = ''__halt_compiler();''"

definition occurs_at :: "string \<Rightarrow> nat \<Rightarrow> string \<Rightarrow> bool" where
  "occurs_at t j s = (take (length t) (drop j s) = t)"

definition token_at :: "nat \<Rightarrow> string \<Rightarrow> bool" where
  "token_at j s = (toLowerCase (take (length halt_token) (drop j s)) = halt_token)"

definition has_token :: "string \<Rightarrow> bool" where
  "has_token s = list_ex (\<lambda>j. token_at j s) [0..<length s]"

definition first_token :: "nat \<Rightarrow> string \<Rightarrow> bool" where
  "first_token k s = (token_at k s \<and> list_all (\<lambda>j. \<not> token_at j s) [0..<k])"

subsection \<open>Words of the specification about signatures\<close>

text \<open>The digest lengths of the four signature kinds, and what the file takes from the
  hash library: every digest has the length of its kind.\<close>

definition digest_length :: "int \<Rightarrow> nat" where
  "digest_length type =
     (if type = SIGNATURE_MD5 then 16 else if type = SIGNATURE_SHA1 then 20
      else if type = SIGNATURE_SHA256 then 32 else if type = SIGNATURE_SHA512 then 64
      else 0)"

definition standard_Hashes :: "Hashes \<Rightarrow> bool" where
  "standard_Hashes h =
     (\<forall>x. length (MD5 h x) = 16 \<and> length (SHA1 h x) = 20
        \<and> length (SHA256 h x) = 32 \<and> length (SHA512 h x) = 64)"

text \<open>An encoded buffer read from its end: the signed region is all but the digest, the
  signature type and the magic; \<open>digest_of\<close> is the digest the decoder computes.\<close>

definition signed_region :: "int \<Rightarrow> string \<Rightarrow> string" where
  "signed_region type buf = take (length buf - 8 - digest_length type) buf"

definition digest_of :: "Hashes \<Rightarrow> int \<Rightarrow> string \<Rightarrow> string" where
  "digest_of h type x = (case load_hasher h type of None \<Rightarrow> [] | Some (n, hasher) \<Rightarrow> hasher x)"

text \<open>One bit of one octet flipped: bit \<open>b\<close> of the octet at position \<open>i\<close>.\<close>

definition flip_bit_at :: "nat \<Rightarrow> nat \<Rightarrow> string \<Rightarrow> string" where
  "flip_bit_at i b s = s[i := char_of (flip_bit b (of_char (s ! i) :: nat))]"

subsection \<open>Example values\<close>

text \<open>Stand-ins for the two libraries: a zlib that stores the octets as they are, and
  digests that repeat the first octet of their input. The archive is the specification's
  scenario S1: one file \<^verbatim>\<open>a.txt\<close> with the contents \<^verbatim>\<open>hi\<close>.\<close>

definition stored_Zlib :: Zlib where
  "stored_Zlib = \<lparr>RawInflate = (\<lambda>u. Some u), RawDeflate = (\<lambda>u. Some u)\<rparr>"

definition first_octet :: "nat \<Rightarrow> string \<Rightarrow> string" where
  "first_octet n x = replicate n (case x of [] \<Rightarrow> CHR 0x00 | c # cs \<Rightarrow> c)"

definition first_octet_Hashes :: Hashes where
  "first_octet_Hashes =
     \<lparr>MD5 = first_octet 16, SHA1 = first_octet 20, SHA256 = first_octet 32,
      SHA512 = first_octet 64\<rparr>"

text \<open>A \<^verbatim>\<open>toLowerCase\<close> on 16-bit code units that knows the Latin-1 capital letters and
  U+0130 and leaves every other unit: on the strings made of units below 256 and of
  U+0130 it is the engine's.\<close>

definition toLowerCase_unit :: "16 word \<Rightarrow> utf16" where
  "toLowerCase_unit u =
     (let n = unat u
      in if n = 0x130 then [0x69, 0x307]
         else if (65 \<le> n \<and> n \<le> 90) \<or> (192 \<le> n \<and> n \<le> 222 \<and> n \<noteq> 215)
         then [word_of_nat (n + 32)] else [u])"

definition sample_toLowerCase :: "utf16 \<Rightarrow> utf16" where
  "sample_toLowerCase s = concat (map toLowerCase_unit s)"

definition a_txt :: PharFile where
  "a_txt = \<lparr>name = ''a.txt'', contents = ''hi'', compression_type = 0,
            timestamp = 0, permission = 438, metadata = []\<rparr>"

definition S1_archive :: Phar where
  "S1_archive = fresh_Phar\<lparr>files := FilesArray [Some a_txt]\<rparr>"

subsection \<open>The layout of an encoded archive\<close>

text \<open>The octets that \<^verbatim>\<open>savePharData\<close> puts into the manifest for one file (the
  second argument is the file's compressed contents) and for the head of the manifest.
  That the encoder writes exactly these is lemma \<open>savePharData_layout\<close> below.\<close>

definition manifest_entry :: "PharFile \<Rightarrow> string \<Rightarrow> string" where
  "manifest_entry f cs =
     writeLInt (int (length (name f))) @ name f
     @ writeLInt (int (length (contents f)))
     @ writeLInt (timestamp f)
     @ writeLInt (int (length cs))
     @ writeLInt (crc32 (contents f))
     @ writeLInt (getPharFlags f)
     @ writeLInt (int (length (metadata f))) @ metadata f"

definition manifest_header :: "Phar \<Rightarrow> int \<Rightarrow> string" where
  "manifest_header P n =
     writeLInt n @ writeLShort (manifest_api P) @ writeLInt (flags P)
     @ writeLInt (int (length (phar_alias P))) @ phar_alias P
     @ writeLInt (int (length (phar_metadata P))) @ phar_metadata P"

fun manifest_entries :: "PharFile list \<Rightarrow> string list \<Rightarrow> string" where
  "manifest_entries (f # fs) (cs # css) = manifest_entry f cs @ manifest_entries fs css"
| "manifest_entries fs css = []"

text \<open>The options that the decoder reads back for a file the encoder wrote.\<close>

definition read_options :: "PharFile \<Rightarrow> PharFile_options" where
  "read_options f =
     \<lparr>opt_compression_type =
        Some (sint ((word_of_int (getPharFlags f) :: 32 word) AND 0xf000)),
      opt_is_compressed = Some True,
      opt_timestamp = Some (uint (word_of_int (timestamp f) :: 32 word)),
      opt_metadata = Some (metadata f),
      opt_permission = Some (sint ((word_of_int (getPharFlags f) :: 32 word) AND 0xfff))\<rparr>"

text \<open>A stub as \<^verbatim>\<open>setStub\<close> leaves it: \<^verbatim>\<open>STUB_END\<close> at its end and nowhere before.\<close>

definition normal_stub :: "string \<Rightarrow> bool" where
  "normal_stub s =
     (length STUB_END \<le> length s
      \<and> occurs_at STUB_END (length s - length STUB_END) s
      \<and> list_all (\<lambda>j. \<not> occurs_at STUB_END j s) [0..<length s - length STUB_END])"

subsection \<open>Archives that can be stored and read back\<close>

text \<open>The inflater undoes the deflater; the page binds the two variables that
  \<^verbatim>\<open>setTimestamp\<close> and \<^verbatim>\<open>setPermission\<close> read, the second to a number that is not
  negative; and the numbers of a file and of an archive fit the fields of the format and
  are not the ones the constructor's \<^verbatim>\<open>||\<close> replaces by a default (an empty name, a
  timestamp or a permission of zero).\<close>

definition inflate_inverts :: "Zlib \<Rightarrow> bool" where
  "inflate_inverts z = (\<forall>u v. RawDeflate z u = Some v \<longrightarrow> RawInflate z v = Some u)"

definition bound_globals :: "Globals \<Rightarrow> bool" where
  "bound_globals g =
     (time g \<noteq> None \<and> (case perm g of None \<Rightarrow> False | Some v \<Rightarrow> 0 \<le> v))"

definition storable_file :: "Zlib \<Rightarrow> PharFile \<Rightarrow> bool" where
  "storable_file z f =
     (name f \<noteq> [] \<and> length (name f) < 2 ^ 32
      \<and> 0 < timestamp f \<and> timestamp f < 2 ^ 32
      \<and> 0 < permission f \<and> permission f \<le> 4095
      \<and> (compression_type f = COMPRESSION_NONE \<or> compression_type f = COMPRESSION_GZ)
      \<and> length (metadata f) < 2 ^ 32
      \<and> (case getCompressedContents z f of Inl e \<Rightarrow> True | Inr cs \<Rightarrow> length cs < 2 ^ 32))"

definition manifest_size :: "Phar \<Rightarrow> nat" where
  "manifest_size P =
     18 + length (phar_alias P) + length (phar_metadata P)
     + sum_list (map (\<lambda>f. 28 + length (name f) + length (metadata f))
         (case files P of FilesObject \<Rightarrow> [] | FilesArray xs \<Rightarrow> entries xs))"

definition storable_archive :: "Zlib \<Rightarrow> Phar \<Rightarrow> bool" where
  "storable_archive z P =
     (normal_stub (stub P)
      \<and> 0 \<le> flags P \<and> flags P < 2 ^ 32
      \<and> 0 \<le> manifest_api P \<and> manifest_api P < 2 ^ 16
      \<and> manifest_size P < 2 ^ 32
      \<and> (case files P of
            FilesObject \<Rightarrow> False
          | FilesArray xs \<Rightarrow>
              list_all (\<lambda>x. x \<noteq> None) xs \<and> length xs < 2 ^ 32
              \<and> distinct (map name (entries xs))
              \<and> list_all (storable_file z) (entries xs)))"

text \<open>In a scope without \<^verbatim>\<open>time\<close> the decoder never reports a corrupt file, and an
  archive it returns has no files.\<close>

definition loads_nothing :: "error + Globals \<times> Phar \<Rightarrow> bool" where
  "loads_nothing r =
     (case r of Inl e \<Rightarrow> e \<noteq> FileCorrupt
      | Inr (g, P) \<Rightarrow> g = no_globals \<and> files P = FilesArray [])"

subsection \<open>Words of the specification about checksums\<close>

text \<open>CRC-32/IEEE in the words of the specification: reflected, polynomial 0xEDB88320,
  initial value 0xFFFFFFFF, final XOR 0xFFFFFFFF, one bit at a time.\<close>

definition crc32_ieee_bit :: "32 word \<Rightarrow> 32 word" where
  "crc32_ieee_bit c = (if bit c 0 then drop_bit 1 c XOR 0xEDB88320 else drop_bit 1 c)"

definition crc32_ieee_octet :: "32 word \<Rightarrow> char \<Rightarrow> 32 word" where
  "crc32_ieee_octet c ch = (crc32_ieee_bit ^^ 8) (c XOR word_of_nat (of_char ch))"

definition crc32_ieee :: "string \<Rightarrow> int" where
  "crc32_ieee str = uint (foldl crc32_ieee_octet 0xFFFFFFFF str XOR 0xFFFFFFFF)"

subsection \<open>More example values\<close>

text \<open>The encoding of scenario S1 with the octets \<open>cs\<close> in the place of the file's
  contents, signed: with \<^verbatim>\<open>hi\<close> it is what \<^verbatim>\<open>savePharData\<close> returns (lemma
  \<open>S1_saved_encoding\<close>). Scenario S4 of the specification flips one bit of the
  payload and computes the signature again: \<^verbatim>\<open>hi\<close> became \<^verbatim>\<open>hh\<close>, and the CRC slot
  still holds the CRC of \<^verbatim>\<open>hi\<close>. Then a page that binds the two globals, and the three
  files of scenario S5, the second one deflated.\<close>

definition S1_encoding :: "string \<Rightarrow> string" where
  "S1_encoding cs =
     (let man = manifest_header S1_archive 1 @ manifest_entry a_txt cs;
          S = stub S1_archive @ writeLInt (int (length man)) @ man @ cs
      in S @ SHA1 first_octet_Hashes S @ writeLInt 2 @ END_MAGIC)"

definition S4_buffer :: string where
  "S4_buffer = S1_encoding ''hh''"

definition page_globals :: Globals where
  "page_globals = \<lparr>time = Some 0, perm = Some 0\<rparr>"

definition S5_archive :: Phar where
  "S5_archive = fresh_Phar\<lparr>files := FilesArray
     [Some \<lparr>name = ''b'', contents = ''1'', compression_type = 0, timestamp = 1,
            permission = 438, metadata = []\<rparr>,
      Some \<lparr>name = ''a'', contents = ''22'', compression_type = 0x1000, timestamp = 2,
            permission = 420, metadata = ''m''\<rparr>,
      Some \<lparr>name = ''c'', contents = ''333'', compression_type = 0, timestamp = 3,
            permission = 438, metadata = []\<rparr>]\<rparr>"


section \<open>Properties\<close>

subsection \<open>The cursor\<close>

text \<open>
  C10: when \<open>n > 0\<close> and the offset plus \<open>n\<close> passes the end of the buffer,
  \<open>get n\<close> raises the out-of-bounds error, and the buffer it leaves behind has its
  offset moved forward by \<open>n\<close>: the failed read is not undone.
\<close>

theorem get_out_of_bounds_moves_offset:
  assumes "0 < n" and "offset b + n > int (length (buffer b))"
  shows "get n b = (Inl OutOfBounds, b\<lparr>offset := offset b + n\<rparr>)"
  using assms by (simp add: get_def Let_def)

theorem get_out_of_bounds_moves_offset_witness:
  "(0::int) < 4
   \<and> offset \<lparr>buffer = ''ab'', offset = 1\<rparr> + 4 > int (length (buffer \<lparr>buffer = ''ab'', offset = 1\<rparr>))
   \<and> get 4 \<lparr>buffer = ''ab'', offset = 1\<rparr> = (Inl OutOfBounds, \<lparr>buffer = ''ab'', offset = 5\<rparr>)"
  using get_out_of_bounds_moves_offset [of 4 "\<lparr>buffer = ''ab'', offset = 1\<rparr>"] by simp

subsection \<open>Little-endian numbers\<close>

lemma and_255_take_bit: "(x :: 32 word) AND 255 = take_bit 8 x"
proof -
  have "(255 :: 32 word) = mask 8" by (simp add: mask_eq_exp_minus_1)
  then show ?thesis by (simp add: take_bit_eq_mask)
qed

lemma take_bit_8_signed_drop_bit:
  "k \<le> 24 \<Longrightarrow> take_bit 8 (signed_drop_bit k (w :: 32 word)) = take_bit 8 (drop_bit k w)"
  by (rule bit_word_eqI) (auto simp add: bit_simps)

lemma four_octets_join:
  "((take_bit 8 (w :: 32 word) OR push_bit 8 (take_bit 8 (drop_bit 8 w)))
      OR push_bit 16 (take_bit 8 (drop_bit 16 w)))
      OR push_bit 24 (take_bit 8 (drop_bit 24 w)) = w"
proof (rule bit_word_eqI)
  fix n :: nat
  assume "n < LENGTH(32)"
  then consider "n < 8" | "8 \<le> n" "n < 16" | "16 \<le> n" "n < 24" | "24 \<le> n" "n < 32"
    by fastforce
  then show "bit (((take_bit 8 w OR push_bit 8 (take_bit 8 (drop_bit 8 w)))
                OR push_bit 16 (take_bit 8 (drop_bit 16 w)))
                OR push_bit 24 (take_bit 8 (drop_bit 24 w))) n = bit w n"
    by cases (auto simp add: bit_simps)
qed

lemma octet_code_unit:
  "word_of_nat (unat (take_bit 8 (x :: 32 word)) mod 256) = (take_bit 8 x :: 32 word)"
proof -
  have "unat (take_bit 8 x) = take_bit 8 (unat x)" by (simp add: unsigned_take_bit_eq)
  also have "\<dots> < 2 ^ 8" by (rule take_bit_nat_less_exp)
  finally have "unat (take_bit 8 x) mod 256 = unat (take_bit 8 x)" by simp
  then show ?thesis by simp
qed

lemma readLInt_writeLInt_word: "readLInt (writeLInt n) = uint (word_of_int n :: 32 word)"
  by (simp add: readLInt_def writeLInt_def charCodeAt_def toInt32_def and_255_take_bit
      take_bit_8_signed_drop_bit octet_code_unit four_octets_join)

lemma readLInt_range: "0 \<le> readLInt s \<and> readLInt s < 2 ^ 32"
  using uint_lt2p [where 'a = 32] by (simp add: readLInt_def)

lemma length_writeLInt [simp]: "length (writeLInt n) = 4"
  by (simp add: writeLInt_def)

text \<open>
  C9: for every integer \<open>n\<close> with \<open>0 \<le> n < 2^32\<close>, reading back the four octets that
  \<open>writeLInt\<close> made gives \<open>n\<close>; and whatever string \<open>readLInt\<close> is given, its result is
  a nonnegative integer below \<open>2^32\<close> (the unsigned reading, also when bit 31 is set).
\<close>

theorem readLInt_writeLInt:
  "(0 \<le> n \<and> n < 2 ^ 32 \<longrightarrow> readLInt (writeLInt n) = n)
   \<and> 0 \<le> readLInt s \<and> readLInt s < 2 ^ 32"
proof -
  have "readLInt (writeLInt n) = n" if "0 \<le> n" and "n < 2 ^ 32"
    using that by (simp add: readLInt_writeLInt_word uint_word_of_int take_bit_int_eq_self
        flip: take_bit_eq_mod)
  then show ?thesis using readLInt_range [of s] by simp
qed

theorem readLInt_writeLInt_witness:
  "((0::int) \<le> 0xDEADBEEF \<and> (0xDEADBEEF::int) < 2 ^ 32)
   \<and> readLInt (writeLInt 0xDEADBEEF) = 0xDEADBEEF
   \<and> 0 \<le> readLInt [CHR 0xFF, CHR 0xFF, CHR 0xFF, CHR 0xFF]
   \<and> readLInt [CHR 0xFF, CHR 0xFF, CHR 0xFF, CHR 0xFF] < 2 ^ 32"
  using readLInt_writeLInt [of "0xDEADBEEF" "[CHR 0xFF, CHR 0xFF, CHR 0xFF, CHR 0xFF]"]
  by simp

subsection \<open>setPermission and setTimestamp\<close>

text \<open>
  C6 (the code departs from the claim): in a scope that has no \<^verbatim>\<open>perm\<close>,
  \<open>setPermission p\<close> throws the permission error only for \<open>p > 4095\<close>; for every other
  \<open>p\<close>, the permitted ones included, it throws a ReferenceError and stores nothing.
\<close>

theorem setPermission_without_perm:
  "setPermission no_globals p f =
     (if p > 4095 then Inl PermissionIncorrect else Inl (ReferenceError ''perm''))"
  by (simp add: setPermission_def no_globals_def)

text \<open>Where the page does bind \<^verbatim>\<open>perm\<close> to a number \<open>v\<close>, the lower bound is tested
  on \<open>v\<close>: a negative \<open>p\<close> is stored when \<open>v \<ge> 0\<close>, and every \<open>p\<close> is refused when
  \<open>v < 0\<close>.\<close>

lemma setPermission_with_perm:
  "setPermission (g\<lparr>perm := Some v\<rparr>) p f =
     (if p > 4095 \<or> v < 0 then Inl PermissionIncorrect else Inr (f\<lparr>permission := p\<rparr>))"
  by (simp add: setPermission_def)

text \<open>
  C7 (the code departs from the claim): in a scope that has no \<^verbatim>\<open>time\<close>,
  \<open>setTimestamp t\<close> throws a ReferenceError for every \<open>t\<close> and stores nothing.
\<close>

theorem setTimestamp_without_time:
  "setTimestamp no_globals now t f = Inl (ReferenceError ''time'')"
  by (simp add: setTimestamp_def no_globals_def)

text \<open>Where the page does bind \<^verbatim>\<open>time\<close> to a number \<open>v\<close>, the argument is stored as
  it is, a negative one too; the current time goes to the global \<^verbatim>\<open>time\<close> when
  \<open>v < 0\<close>.\<close>

lemma setTimestamp_with_time:
  "setTimestamp (g\<lparr>time := Some v\<rparr>) now t f =
     Inr (if v < 0 then g\<lparr>time := Some now\<rparr> else g\<lparr>time := Some v\<rparr>, f\<lparr>timestamp := t\<rparr>)"
  by (simp add: setTimestamp_def)

subsection \<open>addFile\<close>

lemma setStub_default:
  "setStub (''<?php '' @ STUB_END) P = Inr (P\<lparr>stub := ''<?php '' @ STUB_END\<rparr>)"
  by (simp add: setStub_def indexOf_def toLowerCase_def toLowerCase_char_def STUB_END_def
      substring_def char_of_def bit_0)

text \<open>\<^verbatim>\<open>new PharUtils.Phar()\<close>: the defaults, and the plain object for the files.\<close>

lemma Phar_new_no_options:
  "Phar_new no_options = Inr fresh_Phar"
  by (simp add: fresh_Phar_def Phar_new_def no_options_def thenE_def or_str_def or_num_def
      setStub_default [unfolded append_Cons append_Nil] setSignatureType_def setFiles_def
      SIGNATURE_SHA1_def SIGNATURE_MD5_def SIGNATURE_SHA256_def SIGNATURE_SHA512_def)

text \<open>
  C5 (the code departs from the claim): the constructor leaves \<^verbatim>\<open>this.files\<close> the
  plain object that \<open>setFiles\<close> assigned, so on a freshly constructed archive
  \<open>addFile\<close> throws a TypeError for every file and adds nothing.
\<close>

theorem addFile_fresh_Phar:
  "thenE (Phar_new no_options) (addFile e) =
     Inl (TypeError ''this.files.push is not a function'')"
  by (simp add: Phar_new_no_options thenE_def addFile_def removeFile_def fresh_Phar_def)

text \<open>On an archive whose files are an array (after \<open>loadPharData\<close>) with no name
  twice, \<open>addFile\<close> does what the claim says: the file is found under its name, it is
  the last entry, and the entries of other names stay in their order.\<close>

lemma entries_delete_first:
  "distinct (map name (entries xs)) \<Longrightarrow>
     entries (delete_first n xs) = filter (\<lambda>f. name f \<noteq> n) (entries xs)"
proof (induction n xs rule: delete_first.induct)
  case (3 n f xs)
  have keep: "filter (\<lambda>f. name f \<noteq> name f') ys = ys" if "name f' \<notin> name ` set ys"
    for f' :: PharFile and ys
    using that by (induction ys) auto
  show ?case
  proof (cases "name f = n")
    case True
    with 3 have "name f \<notin> name ` set (entries xs)" by simp
    from keep [OF this] True show ?thesis by simp
  next
    case False
    with 3 show ?thesis by simp
  qed
qed simp_all

lemma entries_append: "entries (xs @ ys) = entries xs @ entries ys"
  by (induction xs rule: entries.induct) simp_all

lemma find_filter_append_last:
  "find (\<lambda>f. name f = n) (filter (\<lambda>f. name f \<noteq> n) ys @ [e]) = (if name e = n then Some e else None)"
  by (induction ys) auto

lemma addFile_array:
  assumes "files P = FilesArray xs" and "distinct (map name (entries xs))"
  shows "\<exists>ys. addFile e P = Inr (P\<lparr>files := FilesArray ys\<rparr>)
           \<and> entries ys = filter (\<lambda>f. name f \<noteq> name e) (entries xs) @ [e]
           \<and> getFile (name e) (P\<lparr>files := FilesArray ys\<rparr>) = Some e
           \<and> distinct (map name (entries ys))"
proof -
  let ?ys = "delete_first (name e) xs @ [Some e]"
  have 1: "addFile e P = Inr (P\<lparr>files := FilesArray ?ys\<rparr>)"
    using assms(1) by (simp add: addFile_def removeFile_def)
  have 2: "entries ?ys = filter (\<lambda>f. name f \<noteq> name e) (entries xs) @ [e]"
    using assms(2) by (simp add: entries_append entries_delete_first)
  have 3: "getFile (name e) (P\<lparr>files := FilesArray ?ys\<rparr>) = Some e"
    by (simp add: getFile_def 2 find_filter_append_last)
  have 4: "distinct (map name (entries ?ys))"
    using assms(2) by (auto simp add: 2 distinct_map_filter)
  from 1 2 3 4 show ?thesis by blast
qed

subsection \<open>setStub\<close>

lemma occurs_at_Suc: "occurs_at t (Suc j) (c # cs) = occurs_at t j cs"
  by (simp add: occurs_at_def)

lemma occurs_at_bound: "t \<noteq> [] \<Longrightarrow> occurs_at t j s \<Longrightarrow> j + length t \<le> length s"
proof -
  assume "t \<noteq> []" and "occurs_at t j s"
  then have "length (take (length t) (drop j s)) = length t" by (simp add: occurs_at_def)
  with \<open>t \<noteq> []\<close> show ?thesis by (cases t) (auto simp add: min_def split: if_splits)
qed

lemma indexOf_at_none:
  "t \<noteq> [] \<Longrightarrow> (\<forall>j. \<not> occurs_at t j s) \<Longrightarrow> indexOf_at k s t = - 1"
proof (induction s arbitrary: k)
  case Nil
  then show ?case by simp
next
  case (Cons c cs)
  from Cons.prems(2) have "\<not> occurs_at t 0 (c # cs)" by blast
  then have h: "take (length t) (c # cs) \<noteq> t" by (simp add: occurs_at_def)
  have "\<forall>j. \<not> occurs_at t j cs" using Cons.prems(2) occurs_at_Suc by blast
  with Cons.IH [OF Cons.prems(1)] h show ?case by simp
qed

lemma indexOf_at_first:
  "t \<noteq> [] \<Longrightarrow> occurs_at t j s \<Longrightarrow> (\<forall>i<j. \<not> occurs_at t i s) \<Longrightarrow> indexOf_at k s t = int (k + j)"
proof (induction s arbitrary: k j)
  case Nil
  then show ?case by (simp add: occurs_at_def)
next
  case (Cons c cs)
  show ?case
  proof (cases j)
    case 0
    with Cons.prems(2) show ?thesis by (simp add: occurs_at_def)
  next
    case (Suc j')
    with Cons.prems(3) have "\<not> occurs_at t 0 (c # cs)" by blast
    then have h: "take (length t) (c # cs) \<noteq> t" by (simp add: occurs_at_def)
    have a: "occurs_at t j' cs" using Cons.prems(2) Suc by (simp add: occurs_at_Suc)
    have b: "\<forall>i<j'. \<not> occurs_at t i cs"
    proof (intro allI impI)
      fix i assume "i < j'"
      then have "Suc i < j" using Suc by simp
      with Cons.prems(3) have "\<not> occurs_at t (Suc i) (c # cs)" by blast
      then show "\<not> occurs_at t i cs" by (simp add: occurs_at_Suc)
    qed
    from Cons.IH [OF Cons.prems(1) a b, of "Suc k"] h Suc show ?thesis by simp
  qed
qed

lemma token_at_lower: "token_at j s = occurs_at halt_token j (toLowerCase s)"
  by (simp add: token_at_def occurs_at_def toLowerCase_def take_map drop_map)

lemma halt_token_nonempty: "halt_token \<noteq> []"
  by (simp add: halt_token_def)

lemma token_at_bound: "token_at j s \<Longrightarrow> j + 18 \<le> length s"
  using occurs_at_bound [OF halt_token_nonempty, of j "toLowerCase s"]
  by (simp add: token_at_lower toLowerCase_def halt_token_def)

lemma has_token_iff: "has_token s = (\<exists>j. token_at j s)"
proof
  assume "has_token s" then show "\<exists>j. token_at j s" by (auto simp add: has_token_def list_ex_iff)
next
  assume "\<exists>j. token_at j s"
  then obtain j where j: "token_at j s" by blast
  from token_at_bound [OF j] have "j < length s" by simp
  with j show "has_token s" by (auto simp add: has_token_def list_ex_iff)
qed

lemma first_token_iff: "first_token k s = (token_at k s \<and> (\<forall>j<k. \<not> token_at j s))"
  by (auto simp add: first_token_def list_all_iff)

lemma has_token_first: "has_token s \<Longrightarrow> \<exists>k. first_token k s"
proof -
  assume "has_token s"
  then obtain j where j: "token_at j s" by (auto simp add: has_token_iff)
  define k where "k = (LEAST j. token_at j s)"
  have "token_at k s" unfolding k_def using j by (rule LeastI)
  moreover have "\<forall>i<k. \<not> token_at i s" unfolding k_def using not_less_Least by blast
  ultimately show ?thesis by (auto simp add: first_token_iff)
qed

lemma setStub_first:
  assumes "first_token k s"
  shows "setStub s P = Inr (P\<lparr>stub := take k s @ STUB_END\<rparr>)"
proof -
  from assms have a: "occurs_at halt_token k (toLowerCase s)"
    and b: "\<forall>i<k. \<not> occurs_at halt_token i (toLowerCase s)"
    by (simp_all add: first_token_iff token_at_lower)
  have pos: "indexOf (toLowerCase s) halt_token = int k"
    using indexOf_at_first [OF halt_token_nonempty a b, of 0] by (simp add: indexOf_def)
  from assms have "k \<le> length s" using token_at_bound [of k s] by (simp add: first_token_iff)
  then have "substring s 0 (int k) = take k s" by (simp add: substring_def)
  with pos show ?thesis by (simp add: setStub_def halt_token_def [symmetric] Let_def)
qed

lemma setStub_none:
  assumes "\<not> has_token s"
  shows "setStub s P = Inl StubInvalid"
proof -
  from assms have "\<forall>j. \<not> occurs_at halt_token j (toLowerCase s)"
    by (simp add: has_token_iff token_at_lower)
  from indexOf_at_none [OF halt_token_nonempty this, of 0]
  show ?thesis by (simp add: setStub_def indexOf_def halt_token_def [symmetric])
qed


lemma take_drop_take: "j + n \<le> m \<Longrightarrow> take n (drop j (take m X)) = take n (drop j X)"
  by (simp add: drop_take min_def)

lemma STUB_END_token: "toLowerCase (take 18 STUB_END) = halt_token"
  by code_simp

lemma length_halt_token: "length halt_token = 18"
  by (simp add: halt_token_def)

lemma length_STUB_END: "length STUB_END = 23"
  by (simp add: STUB_END_def)

lemma toLowerCase_append: "toLowerCase (a @ b) = toLowerCase a @ toLowerCase b"
  by (simp add: toLowerCase_def)

lemma length_toLowerCase: "length (toLowerCase a) = length a"
  by (simp add: toLowerCase_def)

lemma toLowerCase_take: "toLowerCase (take n a) = take n (toLowerCase a)"
  by (simp add: toLowerCase_def take_map)

lemma toLowerCase_drop: "toLowerCase (drop n a) = drop n (toLowerCase a)"
  by (simp add: toLowerCase_def drop_map)

lemma token_at_18: "token_at j s = (take 18 (drop j (toLowerCase s)) = halt_token)"
  by (simp add: token_at_def length_halt_token toLowerCase_take toLowerCase_drop)

lemma normal_stub_first:
  assumes "first_token k s"
  shows "first_token k (take k s @ STUB_END)"
proof -
  let ?pre = "take k s"
  let ?L = toLowerCase
  from assms have k: "token_at k s" and least: "\<forall>j<k. \<not> token_at j s"
    by (simp_all add: first_token_iff)
  from token_at_bound [OF k] have len: "length ?pre = k" by simp
  have head_s: "take (k + 18) (?L s) = ?L ?pre @ halt_token"
  proof -
    have "take (k + 18) (?L s) = take k (?L s) @ take 18 (drop k (?L s))"
      by (simp add: take_add)
    also have "take 18 (drop k (?L s)) = halt_token"
      using k by (simp add: token_at_18)
    finally show ?thesis by (simp add: toLowerCase_take)
  qed
  have head_n: "take (k + 18) (?L (?pre @ STUB_END)) = ?L ?pre @ halt_token"
    using len by (simp add: toLowerCase_append length_toLowerCase toLowerCase_take [symmetric] STUB_END_token)
  have at_k: "token_at k (?pre @ STUB_END)"
    using len by (simp add: token_at_18 toLowerCase_append length_toLowerCase toLowerCase_take [symmetric] STUB_END_token)
  have "\<not> token_at j (?pre @ STUB_END)" if "j < k" for j
  proof
    assume "token_at j (?pre @ STUB_END)"
    then have "take 18 (drop j (?L (?pre @ STUB_END))) = halt_token"
      by (simp only: token_at_18)
    with that have "take 18 (drop j (take (k + 18) (?L (?pre @ STUB_END)))) = halt_token"
      by (simp only: take_drop_take)
    then have "take 18 (drop j (take (k + 18) (?L s))) = halt_token"
      by (simp only: head_n head_s)
    with that have "take 18 (drop j (?L s)) = halt_token"
      by (simp only: take_drop_take)
    then have "token_at j s" by (simp only: token_at_18)
    with least that show False by blast
  qed
  with at_k show ?thesis by (simp add: first_token_iff)
qed

lemma normal_stub_once:
  assumes "first_token k s"
  shows "occurs_at STUB_END j (take k s @ STUB_END) = (j = k)"
proof
  let ?pre = "take k s"
  from assms have "token_at k s" by (simp add: first_token_iff)
  from token_at_bound [OF this] have len: "length ?pre = k" by simp
  {
    assume "j = k"
    with len show "occurs_at STUB_END j (?pre @ STUB_END)" by (simp add: occurs_at_def)
  }
  {
    assume occ: "occurs_at STUB_END j (?pre @ STUB_END)"
    have "STUB_END \<noteq> []" by (simp add: STUB_END_def)
    from occurs_at_bound [OF this occ] len have "j \<le> k" by (simp add: length_STUB_END)
    moreover have "\<not> j < k"
    proof
      assume "j < k"
      from occ have "take 23 (drop j (?pre @ STUB_END)) = STUB_END"
        by (simp only: occurs_at_def length_STUB_END)
      then have "take 18 (take 23 (drop j (?pre @ STUB_END))) = take 18 STUB_END" by (rule arg_cong)
      then have "take 18 (drop j (?pre @ STUB_END)) = take 18 STUB_END" by (simp only: take_take) simp
      then have "toLowerCase (take 18 (drop j (?pre @ STUB_END))) = halt_token"
        by (simp only: STUB_END_token)
      then have "token_at j (?pre @ STUB_END)"
        by (simp only: token_at_18 toLowerCase_take toLowerCase_drop)
      with normal_stub_first [OF assms] \<open>j < k\<close> show False by (simp add: first_token_iff)
    qed
    ultimately show "j = k" by simp
  }
qed



text \<open>On octet strings: when \<open>s\<close> contains the token \<^verbatim>\<open>__halt_compiler();\<close> in any
  case, \<open>setStub s\<close> stores the part of \<open>s\<close> before the first occurrence followed by the
  23-octet terminator; the terminator occurs in the stored stub at one position only,
  the one that ends the stub; and setting the stored stub again changes nothing. When
  \<open>s\<close> does not contain the token, \<open>setStub s\<close> throws \<^verbatim>\<open>Stub is invalid!\<close>.\<close>

lemma setStub_octets:
  "(has_token s \<longrightarrow>
      (\<exists>k. first_token k s
         \<and> setStub s P = Inr (P\<lparr>stub := take k s @ STUB_END\<rparr>)
         \<and> length (take k s) = k
         \<and> (\<forall>j. occurs_at STUB_END j (take k s @ STUB_END) = (j = k))
         \<and> setStub (getStub (P\<lparr>stub := take k s @ STUB_END\<rparr>)) (P\<lparr>stub := take k s @ STUB_END\<rparr>)
             = Inr (P\<lparr>stub := take k s @ STUB_END\<rparr>)))
   \<and> (\<not> has_token s \<longrightarrow> setStub s P = Inl StubInvalid)"
proof (intro conjI impI)
  assume "has_token s"
  then obtain k where k: "first_token k s" using has_token_first by blast
  then have "token_at k s" by (simp add: first_token_iff)
  from token_at_bound [OF this] have len: "length (take k s) = k" by simp
  let ?Q = "P\<lparr>stub := take k s @ STUB_END\<rparr>"
  have "setStub (take k s @ STUB_END) ?Q = Inr (?Q\<lparr>stub := take k (take k s @ STUB_END) @ STUB_END\<rparr>)"
    by (rule setStub_first [OF normal_stub_first [OF k]])
  with len have fixed: "setStub (getStub ?Q) ?Q = Inr ?Q" by (simp add: getStub_def)
  from k setStub_first [OF k] len normal_stub_once [OF k] fixed
  show "\<exists>k. first_token k s
         \<and> setStub s P = Inr (P\<lparr>stub := take k s @ STUB_END\<rparr>)
         \<and> length (take k s) = k
         \<and> (\<forall>j. occurs_at STUB_END j (take k s @ STUB_END) = (j = k))
         \<and> setStub (getStub (P\<lparr>stub := take k s @ STUB_END\<rparr>)) (P\<lparr>stub := take k s @ STUB_END\<rparr>)
             = Inr (P\<lparr>stub := take k s @ STUB_END\<rparr>)"
    by blast
next
  assume "\<not> has_token s"
  then show "setStub s P = Inl StubInvalid" by (rule setStub_none)
qed

lemma first_token_example: "first_token 14 ''<?php echo 1; __HALT_COMPILER(); trailing garbage''"
  by (simp add: first_token_def token_at_def halt_token_def toLowerCase_def toLowerCase_char_def
      char_of_def bit_0 upt_rec [of _ "numeral n" for n] upt_rec [of _ "Suc n" for n])

lemma no_token_example: "\<not> has_token ''<?php echo 1;''"
  using token_at_bound [of _ "''<?php echo 1;''"] by (auto simp add: has_token_iff)

lemma setStub_octets_example:
  "setStub ''<?php echo 1; __HALT_COMPILER(); trailing garbage'' fresh_Phar
       = Inr (fresh_Phar\<lparr>stub := ''<?php echo 1; '' @ STUB_END\<rparr>)
   \<and> setStub ''<?php echo 1;'' fresh_Phar = Inl StubInvalid"
  using setStub_first [OF first_token_example, of fresh_Phar]
    setStub_none [OF no_token_example, of fresh_Phar]
  by simp

subsection \<open>setStub on a string of 16-bit code units\<close>






text \<open>Every string whose code units are all below 256 is an octet string.\<close>

lemma code_units_onto:
  assumes "list_all (\<lambda>u. u < 256) w"
  shows "\<exists>s. w = code_units s"
proof -
  have "word_of_nat (of_char (char_of (unat u) :: char)) = u" if "u < 256" for u :: "16 word"
  proof -
    from that have "unat u < 256" by (simp add: word_less_nat_alt)
    then show ?thesis by simp
  qed
  with assms have "w = code_units (map (\<lambda>u. char_of (unat u)) w)"
    by (simp add: code_units_def list_all_iff map_idI)
  then show ?thesis ..
qed




lemma toLowerCase_unit_octet:
  "toLowerCase_unit (word_of_nat (of_char c)) = [word_of_nat (of_char (toLowerCase_char c))]"
proof -
  have n: "(of_char c :: nat) < 256" by (rule nat_of_char_less_256)
  have "(of_char c :: nat) < 65536" by (rule less_trans [OF nat_of_char_less_256]) simp
  then have u: "unat (word_of_nat (of_char c) :: 16 word) = of_char c"
    by (simp add: unat_of_nat)
  from n have ne: "(of_char c :: nat) \<noteq> 304" by linarith
  then show ?thesis
    by (simp add: toLowerCase_unit_def toLowerCase_char_def u Let_def)
qed

lemma latin1_sample_toLowerCase: "latin1_toLowerCase sample_toLowerCase"
proof -
  have "sample_toLowerCase (code_units s) = code_units (toLowerCase s)" for s
    by (induction s)
      (simp_all add: sample_toLowerCase_def code_units_def toLowerCase_def toLowerCase_unit_octet)
  then show ?thesis by (simp add: latin1_toLowerCase_def)
qed



text \<open>Above U+00FF the property is lost. \<^verbatim>\<open>toLowerCase\<close> turns U+0130 into U+0069
  U+0307, so the token stands one unit later in the lowered string than in the string
  that is cut: \<^verbatim>\<open>setStub\<close> of U+0130 followed by the token keeps U+0130 and the first
  unit of the token, and setting the stored stub again keeps one unit more.\<close>

lemma setStub_utf16_dotted_I:
  assumes "lower (0x130 # code_units ''__halt_compiler();'')
             = 0x69 # 0x307 # code_units ''__halt_compiler();''"
  shows "setStub_utf16 lower (0x130 # code_units ''__halt_compiler();'')
           = Inr ([0x130, 0x5F] @ code_units STUB_END)"
  using assms by (simp add: setStub_utf16_def indexOf_def code_units_def substring_def Let_def)

lemma setStub_utf16_dotted_I_again:
  assumes "lower ([0x130, 0x5F] @ code_units STUB_END)
             = [0x69, 0x307, 0x5F] @ code_units (toLowerCase STUB_END)"
  shows "setStub_utf16 lower ([0x130, 0x5F] @ code_units STUB_END)
           = Inr ([0x130, 0x5F, 0x5F] @ code_units STUB_END)"
  using assms
  by (simp add: setStub_utf16_def indexOf_def code_units_def substring_def Let_def
      STUB_END_def toLowerCase_def toLowerCase_char_def char_of_def bit_0)

lemma setStub_utf16_dotted_I_example:
  "setStub_utf16 sample_toLowerCase (0x130 # code_units ''__halt_compiler();'')
     = Inr ([0x130, 0x5F] @ code_units STUB_END)
   \<and> setStub_utf16 sample_toLowerCase ([0x130, 0x5F] @ code_units STUB_END)
     = Inr ([0x130, 0x5F, 0x5F] @ code_units STUB_END)"
proof -
  have u: "toLowerCase_unit 0x130 = [0x69, 0x307]" "toLowerCase_unit 0x5F = [0x5F]"
    by (simp_all add: toLowerCase_unit_def)
  have l: "sample_toLowerCase (code_units t) = code_units (toLowerCase t)" for t
    using latin1_sample_toLowerCase by (simp add: latin1_toLowerCase_def)
  have 1: "sample_toLowerCase (0x130 # code_units ''__halt_compiler();'')
             = 0x69 # 0x307 # code_units ''__halt_compiler();''"
  proof -
    have "sample_toLowerCase (0x130 # code_units ''__halt_compiler();'')
            = [0x69, 0x307] @ sample_toLowerCase (code_units ''__halt_compiler();'')"
      by (simp add: sample_toLowerCase_def u)
    moreover have "toLowerCase ''__halt_compiler();'' = ''__halt_compiler();''"
      by (simp add: toLowerCase_def toLowerCase_char_def)
    ultimately show ?thesis by (simp only: l append_Cons append_Nil)
  qed
  have 2: "sample_toLowerCase ([0x130, 0x5F] @ code_units STUB_END)
             = [0x69, 0x307, 0x5F] @ code_units (toLowerCase STUB_END)"
  proof -
    have "sample_toLowerCase ([0x130, 0x5F] @ code_units STUB_END)
            = [0x69, 0x307, 0x5F] @ sample_toLowerCase (code_units STUB_END)"
      by (simp add: sample_toLowerCase_def u)
    then show ?thesis by (simp only: l)
  qed
  from setStub_utf16_dotted_I [of sample_toLowerCase, OF 1]
    setStub_utf16_dotted_I_again [of sample_toLowerCase, OF 2]
  show ?thesis by simp
qed

subsection \<open>savePharData: the signature\<close>

lemma fromUint8Array_toUint8Array: "fromUint8Array (toUint8Array s) = s"
proof -
  have "char_of (unat (word_of_nat (of_char c) :: 8 word)) = c" for c :: char
    by (simp add: unat_of_nat)
  then show ?thesis by (simp add: fromUint8Array_def toUint8Array_def map_idI)
qed

text \<open>What a successful \<open>savePharData\<close> has done.\<close>

lemma savePharData_Inr:
  assumes "savePharData z h as_u8a P = Inr d"
  obtains n man all_contents hasher where
    "getFilesCount P = Some n" and "n \<noteq> 0"
    and "save_files z (case files P of FilesObject \<Rightarrow> [] | FilesArray xs \<Rightarrow> entries xs)
           (putString (phar_metadata P) (putString (phar_alias P) (putLInt (flags P)
              (putLShort (manifest_api P) (putLInt n (BinaryBuffer_new []))))), [])
         = Inr (man, all_contents)"
    and "save_hasher h (signature_type P) = Some hasher"
    and "as_string d =
           (stub P @ writeLInt (int (length (buffer man))) @ buffer man @ all_contents)
           @ hasher (stub P @ writeLInt (int (length (buffer man))) @ buffer man @ all_contents)
           @ writeLInt (signature_type P) @ END_MAGIC"
  using assms
  by (auto simp add: savePharData_def thenE_def Let_def put_def putLInt_def putString_def
      as_string_def fromUint8Array_toUint8Array BinaryBuffer_new_def
      split: option.splits if_splits sum.splits prod.splits)

lemma save_hasher_cases:
  "save_hasher h t = Some hasher \<Longrightarrow>
     (t = 1 \<and> hasher = MD5 h) \<or> (t = 2 \<and> hasher = SHA1 h)
     \<or> (t = 4 \<and> hasher = SHA256 h) \<or> (t = 8 \<and> hasher = SHA512 h)"
  by (auto simp add: save_hasher_def SIGNATURE_MD5_def SIGNATURE_SHA1_def SIGNATURE_SHA256_def
      SIGNATURE_SHA512_def split: if_splits)

lemma save_load_hasher:
  "save_hasher h k = Some f \<Longrightarrow> load_hasher h k = Some (int (digest_length k), f)"
  by (auto simp add: save_hasher_def load_hasher_def digest_length_def SIGNATURE_MD5_def
      SIGNATURE_SHA1_def SIGNATURE_SHA256_def SIGNATURE_SHA512_def split: if_splits)

lemma standard_digest_length:
  "standard_Hashes h \<Longrightarrow> save_hasher h k = Some f \<Longrightarrow> length (f x) = digest_length k"
  by (auto simp add: standard_Hashes_def save_hasher_def digest_length_def SIGNATURE_MD5_def
      SIGNATURE_SHA1_def SIGNATURE_SHA256_def SIGNATURE_SHA512_def split: if_splits)

lemma standard_first_octet_Hashes: "standard_Hashes first_octet_Hashes"
  by (simp add: standard_Hashes_def first_octet_Hashes_def first_octet_def)

lemma S1_saved: "\<exists>d. savePharData stored_Zlib first_octet_Hashes False S1_archive = Inr d"
  by (simp add: savePharData_def S1_archive_def fresh_Phar_def getFilesCount_def thenE_def Let_def
      getCompressedContents_def a_txt_def COMPRESSION_GZ_def save_hasher_def
      SIGNATURE_MD5_def SIGNATURE_SHA1_def)



subsection \<open>loadPharData: the envelope\<close>

lemma substring_middle:
  "p = int (length a) \<Longrightarrow> q = int (length a) + int (length b) \<Longrightarrow> substring (a @ b @ c) p q = b"
  by (simp add: substring_def Let_def min_def max_def)

lemma substring_prefix: "q = int (length a) \<Longrightarrow> substring (a @ c) 0 q = a"
  by (simp add: substring_def Let_def min_def max_def)

lemma substring_from_suffix: "p = int (length a) \<Longrightarrow> substring_from (a @ c) p = c"
  by (simp add: substring_from_def substring_def Let_def min_def max_def)

lemma length_END_MAGIC: "length END_MAGIC = 4"
  by (simp add: END_MAGIC_def)

text \<open>A buffer that ends with a digest of the right length, a known signature type and
  the magic: the signature is tested, and the signed region goes to \<open>load_manifest\<close>.\<close>

lemma loadPharData_envelope:
  assumes "length W = 4" and "load_hasher h (readLInt W) = Some (int (length D), hasher)"
  shows "loadPharData g now z h (Str (S @ D @ W @ END_MAGIC)) this =
           (if hasher S \<noteq> D then Inl BrokenSignature else load_manifest g now z S this)"
proof -
  let ?buf = "S @ D @ W @ END_MAGIC"
  have magic: "substring_from ?buf (int (length ?buf) - 4) = END_MAGIC"
    using substring_from_suffix [of "int (length ?buf) - 4" "S @ D @ W" END_MAGIC] assms(1)
    by (simp add: length_END_MAGIC)
  have type: "substring ?buf (int (length ?buf) - 4 - 4) (int (length ?buf) - 4 - 4 + 4) = W"
    using substring_middle [of "int (length ?buf) - 4 - 4" "S @ D"
        "int (length ?buf) - 4 - 4 + 4" W END_MAGIC] assms(1)
    by (simp add: length_END_MAGIC)
  have hash: "substring ?buf (int (length ?buf) - 4 - 4 - int (length D))
                (int (length ?buf) - 4 - 4) = D"
    using substring_middle [of "int (length ?buf) - 4 - 4 - int (length D)" S
        "int (length ?buf) - 4 - 4" D "W @ END_MAGIC"] assms(1)
    by (simp add: length_END_MAGIC)
  have region: "substring ?buf 0 (int (length ?buf) - 4 - 4 - int (length D)) = S"
    using substring_prefix [of "int (length ?buf) - 4 - 4 - int (length D)" S
        "D @ W @ END_MAGIC"] assms(1)
    by (simp add: length_END_MAGIC)
  show ?thesis
    unfolding loadPharData_def as_string_def Let_def
    by (simp only: phar_data.case magic type hash region assms(2) option.case prod.case
        if_False refl) simp
qed

text \<open>A buffer whose signature type is none of the four: the decoder stops there.\<close>

lemma loadPharData_unknown_type:
  assumes "length W = 4" and "load_hasher h (readLInt W) = None"
  shows "loadPharData g now z h (Str (X @ W @ END_MAGIC)) this = Inl UnknownSignatureDetected"
proof -
  let ?buf = "X @ W @ END_MAGIC"
  have magic: "substring_from ?buf (int (length ?buf) - 4) = END_MAGIC"
    using substring_from_suffix [of "int (length ?buf) - 4" "X @ W" END_MAGIC] assms(1)
    by (simp add: length_END_MAGIC)
  have type: "substring ?buf (int (length ?buf) - 4 - 4) (int (length ?buf) - 4 - 4 + 4) = W"
    using substring_middle [of "int (length ?buf) - 4 - 4" X
        "int (length ?buf) - 4 - 4 + 4" W END_MAGIC] assms(1)
    by (simp add: length_END_MAGIC)
  show ?thesis
    unfolding loadPharData_def as_string_def Let_def
    by (simp only: phar_data.case magic type assms(2) option.case if_False refl) simp
qed

subsection \<open>Reading four octets back\<close>

lemma flipped_octet: "b < 8 \<Longrightarrow> char_of (flip_bit b (of_char c :: nat)) \<noteq> c"
proof
  assume b: "b < 8" and eq: "char_of (flip_bit b (of_char c :: nat)) = c"
  from eq have "(of_char (char_of (flip_bit b (of_char c :: nat))) :: nat) = of_char c" by simp
  then have "take_bit 8 (flip_bit b (of_char c :: nat)) = (of_char c :: nat)"
    by (simp add: of_char_of take_bit_eq_mod)
  then have "bit (take_bit 8 (flip_bit b (of_char c :: nat))) b = bit (of_char c :: nat) b" by simp
  with b show False by (simp add: bit_take_bit_iff bit_flip_bit_iff)
qed

lemma length_flip_bit_at [simp]: "length (flip_bit_at i b s) = length s"
  by (simp add: flip_bit_at_def)

lemma writeLInt_types:
  "writeLInt 1 = [CHR 0x01, CHR 0x00, CHR 0x00, CHR 0x00]"
  "writeLInt 2 = [CHR 0x02, CHR 0x00, CHR 0x00, CHR 0x00]"
  "writeLInt 4 = [CHR 0x04, CHR 0x00, CHR 0x00, CHR 0x00]"
  "writeLInt 8 = [CHR 0x08, CHR 0x00, CHR 0x00, CHR 0x00]"
  by (simp_all add: writeLInt_def char_of_def bit_0 and_255_take_bit)

lemma flipped_type_octet:
  "list_all (\<lambda>k. list_all (\<lambda>b. char_of (flip_bit b (k::nat)) \<notin> set [CHR 0x01, CHR 0x02, CHR 0x04, CHR 0x08])
       [0, 1, 2, 3, 4, 5, 6, 7]) [1, 2, 4, 8]"
  by (simp add: flip_bit_eq_xor char_of_def bit_0)

lemma octet_of_char: "take_bit 8 (word_of_nat (of_char c) :: 32 word) = word_of_nat (of_char c)"
proof -
  have "(of_char c :: nat) < 2 ^ 8" by simp
  then have "take_bit 8 (of_char c :: nat) = of_char c" by (simp only: take_bit_nat_eq_self)
  then have "word_of_nat (take_bit 8 (of_char c :: nat)) = (word_of_nat (of_char c) :: 32 word)" by simp
  then show ?thesis by (simp add: of_nat_take_bit)
qed

lemma octets_split:
  fixes b0 b1 b2 b3 :: "32 word"
  defines "w \<equiv> ((take_bit 8 b0 OR push_bit 8 (take_bit 8 b1)) OR push_bit 16 (take_bit 8 b2)) OR push_bit 24 (take_bit 8 b3)"
  shows "take_bit 8 w = take_bit 8 b0" and "take_bit 8 (drop_bit 8 w) = take_bit 8 b1"
    and "take_bit 8 (drop_bit 16 w) = take_bit 8 b2" and "take_bit 8 (drop_bit 24 w) = take_bit 8 b3"
  unfolding w_def by (rule bit_word_eqI; auto simp add: bit_simps)+


lemma char_of_octet: "char_of (unat (word_of_nat (of_char c) :: 32 word)) = c"
proof -
  have "(of_char c :: nat) < 4294967296"
    using order_less_trans [of "of_char c :: nat" 256 4294967296] by simp
  then have "(of_char c :: nat) mod 4294967296 = of_char c" by (rule mod_less)
  then show ?thesis by (simp add: unat_of_nat)
qed

lemma octets_of_chars:
  fixes a b c d :: char
  defines "w \<equiv> (((word_of_nat (of_char a) :: 32 word) OR push_bit 8 (word_of_nat (of_char b)))
                   OR push_bit 16 (word_of_nat (of_char c))) OR push_bit 24 (word_of_nat (of_char d))"
  shows "take_bit 8 w = word_of_nat (of_char a)"
    and "take_bit 8 (drop_bit 8 w) = word_of_nat (of_char b)"
    and "take_bit 8 (drop_bit 16 w) = word_of_nat (of_char c)"
    and "take_bit 8 (drop_bit 24 w) = word_of_nat (of_char d)"
  using octets_split [of "word_of_nat (of_char a)" "word_of_nat (of_char b)"
      "word_of_nat (of_char c)" "word_of_nat (of_char d)"]
  unfolding w_def by (simp_all only: octet_of_char)

lemma writeLInt_readLInt:
  assumes "length s = 4"
  shows "writeLInt (readLInt s) = s"
proof -
  from assms obtain a b c d where s: "s = [a, b, c, d]"
    by (cases s; simp; rename_tac x xs, case_tac xs; simp; rename_tac y ys, case_tac ys; simp;
        rename_tac u us, case_tac us; simp)
  let ?w = "(((word_of_nat (of_char a) :: 32 word) OR push_bit 8 (word_of_nat (of_char b)))
                   OR push_bit 16 (word_of_nat (of_char c))) OR push_bit 24 (word_of_nat (of_char d))"
  have r: "readLInt [a, b, c, d] = uint ?w"
    by (simp add: readLInt_def charCodeAt_def toInt32_def)
  have "writeLInt (uint ?w) = [char_of (unat (take_bit 8 ?w)), char_of (unat (take_bit 8 (drop_bit 8 ?w))),
      char_of (unat (take_bit 8 (drop_bit 16 ?w))), char_of (unat (take_bit 8 (drop_bit 24 ?w)))]"
    by (simp add: writeLInt_def and_255_take_bit take_bit_8_signed_drop_bit del: take_bit_of_nat)
  also have "\<dots> = [a, b, c, d]"
    by (simp only: octets_of_chars char_of_octet)
  finally show ?thesis by (simp only: r s)
qed

subsection \<open>A flipped bit\<close>

lemma type_octets:
  assumes "k \<in> {1, 2, 4, 8 :: int}"
  obtains c where "writeLInt k = [c, CHR 0x00, CHR 0x00, CHR 0x00]"
    and "c \<in> set [CHR 0x01, CHR 0x02, CHR 0x04, CHR 0x08]"
    and "(of_char c :: nat) \<in> set [1, 2, 4, 8]"
  using assms by (auto simp add: writeLInt_types)

lemma flipped_type_unknown:
  assumes hs: "save_hasher h k = Some f" and j: "j < 4" and b: "b < 8"
  shows "load_hasher h (readLInt (flip_bit_at j b (writeLInt k))) = None"
proof (rule ccontr)
  let ?W' = "flip_bit_at j b (writeLInt k)"
  assume "load_hasher h (readLInt ?W') \<noteq> None"
  then have known: "readLInt ?W' \<in> {1, 2, 4, 8}"
    by (auto simp add: load_hasher_def SIGNATURE_MD5_def SIGNATURE_SHA1_def SIGNATURE_SHA256_def
        SIGNATURE_SHA512_def split: if_splits)
  have wr: "writeLInt (readLInt ?W') = ?W'" by (rule writeLInt_readLInt) simp
  from save_hasher_cases [OF hs] have "k \<in> {1, 2, 4, 8}" by auto
  then obtain c where W: "writeLInt k = [c, CHR 0x00, CHR 0x00, CHR 0x00]"
    and c: "(of_char c :: nat) \<in> set [1, 2, 4, 8]" by (rule type_octets)
  from known obtain c' where "writeLInt (readLInt ?W') = [c', CHR 0x00, CHR 0x00, CHR 0x00]"
    and c': "c' \<in> set [CHR 0x01, CHR 0x02, CHR 0x04, CHR 0x08]" by (rule type_octets)
  with wr have eq: "flip_bit_at j b [c, CHR 0x00, CHR 0x00, CHR 0x00] = [c', CHR 0x00, CHR 0x00, CHR 0x00]"
    by (simp only: W)
  from j consider "j = 0" | "j = 1" | "j = 2" | "j = 3" by fastforce
  then show False
  proof cases
    case 1
    with eq have "char_of (flip_bit b (of_char c :: nat)) = c'" by (simp add: flip_bit_at_def)
    moreover from b have "b \<in> set [0, 1, 2, 3, 4, 5, 6, 7]" by auto
    ultimately show False using flipped_type_octet c c' unfolding list_all_iff by blast
  next
    case 2
    with eq flipped_octet [OF b, of "CHR 0x00"] show False by (simp add: flip_bit_at_def)
  next
    case 3
    with eq flipped_octet [OF b, of "CHR 0x00"] show False by (simp add: flip_bit_at_def)
  next
    case 4
    with eq flipped_octet [OF b, of "CHR 0x00"] show False by (simp add: flip_bit_at_def)
  qed
qed

lemma flip_bit_at_changes: "i < length s \<Longrightarrow> b < 8 \<Longrightarrow> flip_bit_at i b s \<noteq> s"
proof
  assume i: "i < length s" and b: "b < 8" and eq: "flip_bit_at i b s = s"
  from eq have "flip_bit_at i b s ! i = s ! i" by simp
  with i have "char_of (flip_bit b (of_char (s ! i) :: nat)) = s ! i" by (simp add: flip_bit_at_def)
  with flipped_octet [OF b] show False by blast
qed

lemma flip_bit_at_append_left: "i < length a \<Longrightarrow> flip_bit_at i b (a @ c) = flip_bit_at i b a @ c"
  by (simp add: flip_bit_at_def list_update_append nth_append)

lemma flip_bit_at_append_right:
  "length a \<le> i \<Longrightarrow> flip_bit_at i b (a @ c) = a @ flip_bit_at (i - length a) b c"
  by (simp add: flip_bit_at_def list_update_append nth_append)

lemma readLInt_type: "save_hasher h k = Some f \<Longrightarrow> readLInt (writeLInt k) = k"
  using readLInt_writeLInt_word [of k] by (auto dest!: save_hasher_cases)

text \<open>A flipped bit in a buffer of the encoder's shape.\<close>

lemma flip_encoded:
  assumes hs: "save_hasher h k = Some hasher"
    and len: "length (hasher S) = digest_length k"
    and i: "i < length (S @ hasher S @ writeLInt k)" and b: "b < 8"
    and diff: "i < length S \<longrightarrow> hasher (flip_bit_at i b S) \<noteq> hasher S"
  shows "loadPharData g now z h (Str (flip_bit_at i b (S @ hasher S @ writeLInt k @ END_MAGIC))) this =
           (if length (S @ hasher S) \<le> i then Inl UnknownSignatureDetected else Inl BrokenSignature)"
proof -
  let ?W = "writeLInt k"
  let ?D = "hasher S"
  have lh: "load_hasher h (readLInt ?W) = Some (int (length ?D), hasher)"
    using save_load_hasher [OF hs] readLInt_type [OF hs] len by simp
  consider (region) "i < length S" | (digest) "length S \<le> i" "i < length (S @ ?D)"
    | (type) "length (S @ ?D) \<le> i"
    by fastforce
  then show ?thesis
  proof cases
    case region
    then have eq: "flip_bit_at i b (S @ ?D @ ?W @ END_MAGIC) = flip_bit_at i b S @ ?D @ ?W @ END_MAGIC"
      by (simp add: flip_bit_at_append_left)
    from region diff have ne: "hasher (flip_bit_at i b S) \<noteq> ?D" by blast
    have "loadPharData g now z h (Str (flip_bit_at i b S @ ?D @ ?W @ END_MAGIC)) this = Inl BrokenSignature"
      using loadPharData_envelope [of ?W h ?D hasher g now z "flip_bit_at i b S" this] lh ne
      by simp
    with region show ?thesis by (simp only: eq) simp
  next
    case digest
    let ?D' = "flip_bit_at (i - length S) b ?D"
    from digest have eq: "flip_bit_at i b (S @ ?D @ ?W @ END_MAGIC) = S @ ?D' @ ?W @ END_MAGIC"
      by (simp add: flip_bit_at_append_right flip_bit_at_append_left)
    from digest b have ne: "?D' \<noteq> ?D" by (intro flip_bit_at_changes) auto
    have lh': "load_hasher h (readLInt ?W) = Some (int (length ?D'), hasher)"
      using lh by simp
    have "loadPharData g now z h (Str (S @ ?D' @ ?W @ END_MAGIC)) this = Inl BrokenSignature"
      using loadPharData_envelope [of ?W h ?D' hasher g now z S this, OF _ lh'] ne
      by simp
    with digest show ?thesis by (simp only: eq) simp
  next
    case type
    let ?W' = "flip_bit_at (i - length (S @ ?D)) b ?W"
    from type have eq: "flip_bit_at i b (S @ ?D @ ?W @ END_MAGIC) = (S @ ?D) @ ?W' @ END_MAGIC"
      using flip_bit_at_append_right [of "S @ ?D" i b "?W @ END_MAGIC"] i
      by (simp add: flip_bit_at_append_left)
    from type i have "i - length (S @ ?D) < 4" by simp
    from flipped_type_unknown [OF hs this b] have "load_hasher h (readLInt ?W') = None" .
    from loadPharData_unknown_type [of ?W' h g now z "S @ ?D" this, OF _ this]
    have "loadPharData g now z h (Str ((S @ ?D) @ ?W' @ END_MAGIC)) this = Inl UnknownSignatureDetected"
      by simp
    with type show ?thesis by (simp only: eq) simp
  qed
qed

text \<open>
  C2 (amended): take a buffer that \<open>savePharData\<close> returned, and flip one bit of one
  octet before the four octets of the magic. Decoding the changed buffer fails: with
  \<^verbatim>\<open>Unknown signature type detected!\<close> when the bit lies in the signature type,
  and with \<^verbatim>\<open>Phar has a broken signature!\<close> when it lies in the digest or in the
  signed region. For a bit in the signed region this needs the hash function to give
  the changed region another digest than the stored one. The digests are taken to have
  their standard lengths.
\<close>

theorem bit_flip_rejected:
  assumes std: "standard_Hashes h"
    and sv: "savePharData z h as_u8a P = Inr d"
    and i: "i < length (as_string d) - 4" and b: "b < 8"
    and diff: "i < length (signed_region (signature_type P) (as_string d)) \<longrightarrow>
           digest_of h (signature_type P)
             (signed_region (signature_type P) (flip_bit_at i b (as_string d)))
           \<noteq> digest_of h (signature_type P) (signed_region (signature_type P) (as_string d))"
  shows "loadPharData g now z' h (Str (flip_bit_at i b (as_string d))) this =
           (if length (as_string d) - 8 \<le> i then Inl UnknownSignatureDetected
            else Inl BrokenSignature)"
proof -
  let ?k = "signature_type P"
  from sv obtain S hasher where hs: "save_hasher h ?k = Some hasher"
    and shape: "as_string d = S @ hasher S @ writeLInt ?k @ END_MAGIC"
    by (rule savePharData_Inr)
  have len: "length (hasher S) = digest_length ?k" by (rule standard_digest_length [OF std hs])
  have dg: "digest_of h ?k x = hasher x" for x
    by (simp add: digest_of_def save_load_hasher [OF hs])
  have total: "length (as_string d) = length S + digest_length ?k + 8"
    by (simp add: shape len length_END_MAGIC)
  have region: "signed_region ?k (as_string d) = S"
    by (simp add: signed_region_def total) (simp add: shape)
  have region': "signed_region ?k (flip_bit_at i b (as_string d)) = flip_bit_at i b S" if "i < length S"
    using that by (simp add: signed_region_def total) (simp add: shape flip_bit_at_append_left)
  from diff have diff': "i < length S \<longrightarrow> hasher (flip_bit_at i b S) \<noteq> hasher S"
    by (auto simp add: region region' dg)
  from i have i': "i < length (S @ hasher S @ writeLInt ?k)"
    by (simp add: total len)
  from flip_encoded [OF hs len i' b diff', of g now z' this]
  show ?thesis by (simp add: shape [symmetric] total len)
qed

lemma S1_encoded_head:
  assumes "savePharData z h as_u8a S1_archive = Inr d"
  obtains S where "as_string d = (CHR ''<'' # S) @ SHA1 h (CHR ''<'' # S) @ writeLInt 2 @ END_MAGIC"
proof -
  from assms obtain S hasher where hs: "save_hasher h (signature_type S1_archive) = Some hasher"
    and shape: "as_string d = (stub S1_archive @ S) @ hasher (stub S1_archive @ S)
                    @ writeLInt (signature_type S1_archive) @ END_MAGIC"
    by (rule savePharData_Inr)
  have t: "signature_type S1_archive = 2" and st: "stub S1_archive = CHR ''<'' # ''?php '' @ STUB_END"
    by (simp_all add: S1_archive_def fresh_Phar_def)
  from hs have "hasher = SHA1 h" by (auto simp add: t dest!: save_hasher_cases)
  with shape that [of "''?php '' @ STUB_END @ S"] show thesis by (simp add: t st)
qed

theorem bit_flip_rejected_witness:
  "standard_Hashes first_octet_Hashes
   \<and> (\<exists>d. savePharData stored_Zlib first_octet_Hashes False S1_archive = Inr d
        \<and> 0 < length (as_string d) - 4 \<and> (0::nat) < 8
        \<and> 0 < length (signed_region (signature_type S1_archive) (as_string d))
        \<and> digest_of first_octet_Hashes (signature_type S1_archive)
             (signed_region (signature_type S1_archive) (flip_bit_at 0 0 (as_string d)))
           \<noteq> digest_of first_octet_Hashes (signature_type S1_archive)
                (signed_region (signature_type S1_archive) (as_string d))
        \<and> loadPharData no_globals 0 stored_Zlib first_octet_Hashes
             (Str (flip_bit_at 0 0 (as_string d))) fresh_Phar = Inl BrokenSignature)"
proof -
  let ?h = first_octet_Hashes
  from S1_saved obtain d where d: "savePharData stored_Zlib ?h False S1_archive = Inr d"
    by blast
  then obtain S where shape: "as_string d = (CHR ''<'' # S) @ SHA1 ?h (CHR ''<'' # S) @ writeLInt 2 @ END_MAGIC"
    by (rule S1_encoded_head)
  have t: "signature_type S1_archive = 2" by (simp add: S1_archive_def fresh_Phar_def)
  have sha: "SHA1 ?h x = first_octet 20 x" for x by (simp add: first_octet_Hashes_def)
  have total: "length (as_string d) = length S + 29"
    by (simp add: shape sha first_octet_def length_END_MAGIC)
  have region: "signed_region 2 (as_string d) = CHR ''<'' # S"
    by (simp add: signed_region_def digest_length_def SIGNATURE_MD5_def SIGNATURE_SHA1_def total)
      (simp add: shape)
  have region': "signed_region 2 (flip_bit_at 0 0 (as_string d))
                   = char_of (flip_bit 0 (of_char (CHR ''<'') :: nat)) # S"
    by (simp add: signed_region_def digest_length_def SIGNATURE_MD5_def SIGNATURE_SHA1_def total)
      (simp add: shape flip_bit_at_def)
  have dg: "digest_of ?h 2 x = first_octet 20 x" for x
    by (simp add: digest_of_def load_hasher_def SIGNATURE_MD5_def SIGNATURE_SHA1_def sha)
  have ne: "digest_of ?h 2 (signed_region 2 (flip_bit_at 0 0 (as_string d)))
              \<noteq> digest_of ?h 2 (signed_region 2 (as_string d))"
    using flipped_octet [of 0 "CHR ''<''"]
    by (simp add: region region' dg first_octet_def del: of_char_Char)
  have pos: "0 < length (as_string d) - 4" by (simp add: total)
  have pos': "0 < length (signed_region 2 (as_string d))" by (simp add: region)
  from bit_flip_rejected [OF standard_first_octet_Hashes d pos, of 0 no_globals 0 stored_Zlib fresh_Phar]
    ne
  have "loadPharData no_globals 0 stored_Zlib ?h (Str (flip_bit_at 0 0 (as_string d))) fresh_Phar
          = Inl BrokenSignature"
    by (simp add: t total)
  with standard_first_octet_Hashes d pos pos' ne show ?thesis by (auto simp add: t)
qed

text \<open>
  C2 as stated fails: in the encoded archive of scenario S1, flipping the lowest bit of
  the first octet of the signature type (eight octets before the end) makes the decoder
  throw \<^verbatim>\<open>Unknown signature type detected!\<close>, which is none of the errors that the
  claim lists (broken signature, corrupt file, out of bounds, stub not found).
\<close>

theorem bit_flip_in_signature_type:
  "(case savePharData stored_Zlib first_octet_Hashes False S1_archive of
      Inl e \<Rightarrow> False
    | Inr d \<Rightarrow>
        length (as_string d) - 8 < length (as_string d) - 4
        \<and> loadPharData no_globals 0 stored_Zlib first_octet_Hashes
             (Str (flip_bit_at (length (as_string d) - 8) 0 (as_string d))) fresh_Phar
           = Inl UnknownSignatureDetected)
   \<and> UnknownSignatureDetected \<notin> set [BrokenSignature, FileCorrupt, OutOfBounds, StubNotFound]"
proof -
  let ?h = first_octet_Hashes
  from S1_saved obtain d where d: "savePharData stored_Zlib ?h False S1_archive = Inr d"
    by blast
  then obtain S hasher where hs: "save_hasher ?h (signature_type S1_archive) = Some hasher"
    and shape: "as_string d = S @ hasher S @ writeLInt (signature_type S1_archive) @ END_MAGIC"
    by (rule savePharData_Inr)
  let ?k = "signature_type S1_archive"
  have len: "length (hasher S) = digest_length ?k"
    by (rule standard_digest_length [OF standard_first_octet_Hashes hs])
  have total: "length (as_string d) = length S + digest_length ?k + 8"
    by (simp add: shape len length_END_MAGIC)
  have "loadPharData no_globals 0 stored_Zlib ?h
          (Str (flip_bit_at (length (S @ hasher S)) 0 (S @ hasher S @ writeLInt ?k @ END_MAGIC))) fresh_Phar
        = Inl UnknownSignatureDetected"
    using flip_encoded [OF hs len, of "length (S @ hasher S)" 0 no_globals 0 stored_Zlib fresh_Phar]
    by simp
  then have "loadPharData no_globals 0 stored_Zlib ?h
          (Str (flip_bit_at (length (as_string d) - 8) 0 (as_string d))) fresh_Phar
        = Inl UnknownSignatureDetected"
    by (simp add: shape [symmetric] total len)
  with d total show ?thesis by simp
qed

subsection \<open>Reading what was written\<close>

text \<open>Reading what was written: a cursor that stands before a written item.\<close>

lemma get_at:
  assumes "buffer b = pre @ x @ rest" and "offset b = int (length pre)" and "n = int (length x)"
  shows "get n b = (Inr x, b\<lparr>offset := int (length pre) + int (length x)\<rparr>)"
proof (cases "x = []")
  case True
  with assms show ?thesis by (simp add: get_def)
next
  case False
  then have "0 < length x" by simp
  with assms show ?thesis
    using substring_middle [of "int (length pre)" pre "int (length pre) + int (length x)" x rest]
    by (simp add: get_def Let_def)
qed

lemma getLInt_at:
  assumes "buffer b = pre @ writeLInt n @ rest" and "offset b = int (length pre)"
  shows "getLInt b = (Inr (uint (word_of_int n :: 32 word)), b\<lparr>offset := int (length pre) + 4\<rparr>)"
  using get_at [OF assms, of 4] by (simp add: getLInt_def readLInt_writeLInt_word)

lemma getLInt_at_nat:
  assumes "buffer b = pre @ writeLInt (int n) @ rest" and "offset b = int (length pre)"
    and "n < 2 ^ 32"
  shows "getLInt b = (Inr (int n), b\<lparr>offset := int (length pre) + 4\<rparr>)"
proof -
  have "uint (word_of_int (int n) :: 32 word) = int n"
    using assms(3) by (simp add: uint_nat unat_of_nat)
  with getLInt_at [OF assms(1,2)] show ?thesis by simp
qed

lemma getString_at:
  assumes "buffer b = pre @ writeLInt (int (length x)) @ x @ rest" and "offset b = int (length pre)"
    and "length x < 2 ^ 32"
  shows "getString b = (Inr x, b\<lparr>offset := int (length pre) + 4 + int (length x)\<rparr>)"
proof -
  let ?b' = "b\<lparr>offset := int (length pre) + 4\<rparr>"
  have 1: "getLInt b = (Inr (int (length x)), ?b')"
    by (rule getLInt_at_nat [OF assms])
  have "buffer ?b' = (pre @ writeLInt (int (length x))) @ x @ rest" using assms(1) by simp
  moreover have "offset ?b' = int (length (pre @ writeLInt (int (length x))))" by simp
  ultimately have "get (int (length x)) ?b' =
      (Inr x, ?b'\<lparr>offset := int (length (pre @ writeLInt (int (length x)))) + int (length x)\<rparr>)"
    by (rule get_at) simp
  with 1 show ?thesis by (simp add: getString_def)
qed

lemma length_writeLShort [simp]: "length (writeLShort n) = 2"
  by (simp add: writeLShort_def)

lemma two_octets_join:
  "take_bit 8 (w :: 32 word) OR push_bit 8 (take_bit 8 (drop_bit 8 w)) = take_bit 16 w"
proof (rule bit_word_eqI)
  fix n :: nat
  assume "n < LENGTH(32)"
  then consider "n < 8" | "8 \<le> n" "n < 16" | "16 \<le> n" by fastforce
  then show "bit (take_bit 8 w OR push_bit 8 (take_bit 8 (drop_bit 8 w))) n = bit (take_bit 16 w) n"
    by cases (auto simp add: bit_simps)
qed

lemma readLShort_writeLShort_word:
  "readLShort (writeLShort n) = sint (take_bit 16 (word_of_int n :: 32 word))"
  by (simp add: readLShort_def writeLShort_def charCodeAt_def toInt32_def and_255_take_bit
      take_bit_8_signed_drop_bit octet_code_unit two_octets_join)

lemma readLShort_writeLShort:
  assumes "0 \<le> n" and "n < 2 ^ 16"
  shows "readLShort (writeLShort n) = n"
proof -
  have "uint (take_bit 16 (word_of_int n :: 32 word)) = take_bit 16 (take_bit 32 n)"
    by (simp only: unsigned_take_bit_eq uint_word_of_int_eq) simp
  also have "\<dots> = n" using assms by (simp add: take_bit_int_eq_self)
  finally have u: "uint (take_bit 16 (word_of_int n :: 32 word)) = n" .
  have "sint (take_bit 16 (word_of_int n :: 32 word)) = signed_take_bit 31 n"
    by (simp add: sint_uint u)
  also have "\<dots> = n" using assms by (simp add: signed_take_bit_int_eq_self)
  finally show ?thesis by (simp only: readLShort_writeLShort_word)
qed

lemma getLShort_at:
  assumes "buffer b = pre @ writeLShort n @ rest" and "offset b = int (length pre)"
    and "0 \<le> n" and "n < 2 ^ 16"
  shows "getLShort b = (Inr n, b\<lparr>offset := int (length pre) + 2\<rparr>)"
  using get_at [OF assms(1,2), of 2] readLShort_writeLShort [OF assms(3,4)]
  by (simp add: getLShort_def)

subsection \<open>savePharData: the layout\<close>

lemma save_files_layout:
  "save_files z fs (m, a) = Inr (m', a') \<Longrightarrow>
     \<exists>css. length css = length fs
       \<and> list_all2 (\<lambda>f cs. getCompressedContents z f = Inr cs) fs css
       \<and> m' = m\<lparr>buffer := buffer m @ manifest_entries fs css\<rparr>
       \<and> a' = a @ concat css"
proof (induction fs arbitrary: m a)
  case Nil
  then show ?case by simp
next
  case (Cons f fs)
  from Cons.prems obtain cs where cs: "getCompressedContents z f = Inr cs"
    by (auto simp add: thenE_def split: sum.splits)
  let ?m = "m\<lparr>buffer := buffer m @ manifest_entry f cs\<rparr>"
  from Cons.prems cs have "save_files z fs (?m, a @ cs) = Inr (m', a')"
    by (simp add: thenE_def Let_def putString_def putLInt_def put_def manifest_entry_def getSize_def)
  from Cons.IH [OF this] obtain css where "length css = length fs"
    and "list_all2 (\<lambda>f cs. getCompressedContents z f = Inr cs) fs css"
    and "m' = ?m\<lparr>buffer := buffer ?m @ manifest_entries fs css\<rparr>"
    and "a' = (a @ cs) @ concat css" by blast
  with cs show ?case
    by (intro exI [of _ "cs # css"]) simp
qed

lemma savePharData_layout:
  assumes "savePharData z h as_u8a P = Inr d"
  obtains n xs css hasher where
    "files P = FilesArray xs" and "n = int (length xs)" and "xs \<noteq> []"
    and "length css = length (entries xs)"
    and "list_all2 (\<lambda>f cs. getCompressedContents z f = Inr cs) (entries xs) css"
    and "save_hasher h (signature_type P) = Some hasher"
    and "as_string d =
           (stub P @ writeLInt (int (length (manifest_header P n @ manifest_entries (entries xs) css)))
              @ (manifest_header P n @ manifest_entries (entries xs) css) @ concat css)
           @ hasher (stub P @ writeLInt (int (length (manifest_header P n @ manifest_entries (entries xs) css)))
              @ (manifest_header P n @ manifest_entries (entries xs) css) @ concat css)
           @ writeLInt (signature_type P) @ END_MAGIC"
proof -
  from assms obtain n man all_contents hasher where
    n: "getFilesCount P = Some n" "n \<noteq> 0"
    and sf: "save_files z (case files P of FilesObject \<Rightarrow> [] | FilesArray xs \<Rightarrow> entries xs)
           (putString (phar_metadata P) (putString (phar_alias P) (putLInt (flags P)
              (putLShort (manifest_api P) (putLInt n (BinaryBuffer_new []))))), [])
         = Inr (man, all_contents)"
    and hs: "save_hasher h (signature_type P) = Some hasher"
    and shape: "as_string d =
           (stub P @ writeLInt (int (length (buffer man))) @ buffer man @ all_contents)
           @ hasher (stub P @ writeLInt (int (length (buffer man))) @ buffer man @ all_contents)
           @ writeLInt (signature_type P) @ END_MAGIC"
    by (rule savePharData_Inr)
  from n obtain xs where xs: "files P = FilesArray xs" "n = int (length xs)" "xs \<noteq> []"
    by (auto simp add: getFilesCount_def split: file_store.splits)
  from save_files_layout [OF sf] xs obtain css where css: "length css = length (entries xs)"
    "list_all2 (\<lambda>f cs. getCompressedContents z f = Inr cs) (entries xs) css"
    and man: "buffer man = manifest_header P n @ manifest_entries (entries xs) css"
    and ac: "all_contents = concat css"
    by (auto simp add: manifest_header_def putString_def putLInt_def putLShort_def put_def
        BinaryBuffer_new_def)
  from xs css hs shape show thesis
    by (intro that [of xs n css hasher]) (simp_all add: man ac)
qed

subsection \<open>loadPharData: one entry of the manifest\<close>

lemma length_manifest_entry:
  "length (manifest_entry f cs) = 28 + length (name f) + length (metadata f)"
  by (simp add: manifest_entry_def)

lemma load_file_at:
  assumes mb: "buffer mb = pre @ manifest_entry f cs @ rest" and mo: "offset mb = int (length pre)"
    and cb: "buffer cb = cpre @ cs @ crest" and co: "offset cb = int (length cpre)"
    and sizes: "length (name f) < 2 ^ 32" "length (metadata f) < 2 ^ 32" "length cs < 2 ^ 32"
  shows "load_file now z (g, mb, cb, P) =
     thenE (PharFile_new g now z (name f) cs (read_options f))
       (\<lambda>(g1, file).
          if uint (word_of_int (crc32 (contents f)) :: 32 word) \<noteq> crc32 (contents file)
          then Inl FileCorrupt
          else thenE (addFile file P) (\<lambda>P1.
                 Inr (g1, mb\<lparr>offset := int (length pre) + int (length (manifest_entry f cs))\<rparr>,
                      cb\<lparr>offset := int (length cpre) + int (length cs)\<rparr>, P1)))"
proof -
  let ?n = "writeLInt (int (length (name f))) @ name f"
  let ?sz = "writeLInt (int (length (contents f)))"
  let ?ts = "writeLInt (timestamp f)"
  let ?cl = "writeLInt (int (length cs))"
  let ?crc = "writeLInt (crc32 (contents f))"
  let ?fl = "writeLInt (getPharFlags f)"
  let ?md = "writeLInt (int (length (metadata f))) @ metadata f"
  have buf: "buffer mb = pre @ ?n @ ?sz @ ?ts @ ?cl @ ?crc @ ?fl @ ?md @ rest"
    by (simp add: mb manifest_entry_def)
  let ?o1 = "int (length pre) + 4 + int (length (name f))"
  have s1: "getString mb = (Inr (name f), mb\<lparr>offset := ?o1\<rparr>)"
    using getString_at [of mb pre "name f" "?sz @ ?ts @ ?cl @ ?crc @ ?fl @ ?md @ rest"] sizes
    by (simp add: buf mo)
  let ?m2 = "mb\<lparr>offset := ?o1 + 4\<rparr>"
  have s2: "getLInt ?m2 = (Inr (uint (word_of_int (timestamp f) :: 32 word)), mb\<lparr>offset := ?o1 + 8\<rparr>)"
    using getLInt_at [of ?m2 "pre @ ?n @ ?sz" "timestamp f" "?cl @ ?crc @ ?fl @ ?md @ rest"]
    by (simp add: buf)
  have s3: "getLInt (mb\<lparr>offset := ?o1 + 8\<rparr>) = (Inr (int (length cs)), mb\<lparr>offset := ?o1 + 12\<rparr>)"
    using getLInt_at_nat [of "mb\<lparr>offset := ?o1 + 8\<rparr>" "pre @ ?n @ ?sz @ ?ts" "length cs" "?crc @ ?fl @ ?md @ rest"] sizes
    by (simp add: buf)
  have s4: "getLInt (mb\<lparr>offset := ?o1 + 12\<rparr>)
              = (Inr (uint (word_of_int (crc32 (contents f)) :: 32 word)), mb\<lparr>offset := ?o1 + 16\<rparr>)"
    using getLInt_at [of "mb\<lparr>offset := ?o1 + 12\<rparr>" "pre @ ?n @ ?sz @ ?ts @ ?cl" "crc32 (contents f)" "?fl @ ?md @ rest"]
    by (simp add: buf)
  have s5: "getLInt (mb\<lparr>offset := ?o1 + 16\<rparr>)
              = (Inr (uint (word_of_int (getPharFlags f) :: 32 word)), mb\<lparr>offset := ?o1 + 20\<rparr>)"
    using getLInt_at [of "mb\<lparr>offset := ?o1 + 16\<rparr>" "pre @ ?n @ ?sz @ ?ts @ ?cl @ ?crc" "getPharFlags f" "?md @ rest"]
    by (simp add: buf)
  have s6: "getString (mb\<lparr>offset := ?o1 + 20\<rparr>)
              = (Inr (metadata f), mb\<lparr>offset := ?o1 + 24 + int (length (metadata f))\<rparr>)"
    using getString_at [of "mb\<lparr>offset := ?o1 + 20\<rparr>" "pre @ ?n @ ?sz @ ?ts @ ?cl @ ?crc @ ?fl" "metadata f" rest] sizes
    by (simp add: buf)
  have s7: "get (int (length cs)) cb = (Inr cs, cb\<lparr>offset := int (length cpre) + int (length cs)\<rparr>)"
    by (rule get_at [OF cb co refl])
  have fin: "int (length pre) + int (length (manifest_entry f cs))
               = 28 + (int (length pre) + int (length (name f))) + int (length (metadata f))"
    by (simp add: length_manifest_entry)
  show ?thesis
    unfolding load_file_def fin
    using s1 s2 s3 s4 s5 s6 s7
    by (simp add: thenB_def read_options_def Let_def)
qed

subsection \<open>loadPharData: the head of the manifest\<close>

text \<open>The header of the manifest, and the loop\<close>

lemma indexOf_append_first:
  assumes "t \<noteq> []" and "occurs_at t k s" and "\<forall>j<k. \<not> occurs_at t j s"
  shows "indexOf (s @ r) t = int k"
proof -
  from occurs_at_bound [OF assms(1,2)] have bound: "k + length t \<le> length s" .
  have same: "occurs_at t j (s @ r) = occurs_at t j s" if "j \<le> k" for j
    using that bound by (simp add: occurs_at_def)
  from assms(2) same [of k] have a: "occurs_at t k (s @ r)" by simp
  from assms(3) same have b: "\<forall>j<k. \<not> occurs_at t j (s @ r)" by simp
  from indexOf_at_first [OF assms(1) a b, of 0] show ?thesis by (simp add: indexOf_def)
qed

lemma load_manifest_layout:
  assumes stub: "normal_stub st"
    and man: "man = manifest_header P n @ ents" "length man < 2 ^ 32"
    and n: "0 \<le> n" "n < 2 ^ 32"
    and api: "0 \<le> manifest_api P" "manifest_api P < 2 ^ 16"
    and sizes: "length (phar_alias P) < 2 ^ 32" "length (phar_metadata P) < 2 ^ 32"
  shows "load_manifest g now z (st @ writeLInt (int (length man)) @ man @ cts) this =
           thenE (load_files (nat n) now z
                    (g,
                     \<lparr>buffer = man, offset = int (length (manifest_header P n))\<rparr>,
                     \<lparr>buffer = st @ writeLInt (int (length man)) @ man @ cts,
                      offset = int (length st) + 4 + int (length man)\<rparr>,
                     this\<lparr>stub := st, manifest_api := manifest_api P,
                          flags := uint (word_of_int (flags P) :: 32 word),
                          phar_alias := phar_alias P, phar_metadata := phar_metadata P,
                          files := FilesArray []\<rparr>))
             (\<lambda>(g1, m6, b3, this1). Inr (g1, this1))"
proof -
  let ?S = "st @ writeLInt (int (length man)) @ man @ cts"
  let ?k = "length st - length STUB_END"
  from stub have k: "occurs_at STUB_END ?k st" and least: "\<forall>j<?k. \<not> occurs_at STUB_END j st"
    and le: "length STUB_END \<le> length st"
    by (simp_all add: normal_stub_def list_all_iff)
  have ne: "STUB_END \<noteq> []" by (simp add: STUB_END_def)
  have idx: "indexOf ?S STUB_END = int ?k" by (rule indexOf_append_first [OF ne k least])
  have len: "int ?k + int (length STUB_END) = int (length st)" using le by simp
  let ?b0 = "BinaryBuffer_new ?S"
  have g1: "get (int (length st)) ?b0 = (Inr st, ?b0\<lparr>offset := int (length st)\<rparr>)"
    using get_at [of ?b0 "[]" st "writeLInt (int (length man)) @ man @ cts" "int (length st)"]
    by (simp add: BinaryBuffer_new_def)
  have g2: "getString (?b0\<lparr>offset := int (length st)\<rparr>)
              = (Inr man, ?b0\<lparr>offset := int (length st) + 4 + int (length man)\<rparr>)"
    using getString_at [of "?b0\<lparr>offset := int (length st)\<rparr>" st man cts] man(2)
    by (simp add: BinaryBuffer_new_def)
  let ?m0 = "BinaryBuffer_new man"
  let ?al = "writeLInt (int (length (phar_alias P))) @ phar_alias P"
  let ?md = "writeLInt (int (length (phar_metadata P))) @ phar_metadata P"
  have mbuf: "buffer ?m0 = writeLInt n @ writeLShort (manifest_api P) @ writeLInt (flags P) @ ?al @ ?md @ ents"
    by (simp add: BinaryBuffer_new_def man(1) manifest_header_def)
  have h1: "getLInt ?m0 = (Inr n, ?m0\<lparr>offset := 4\<rparr>)"
  proof -
    have "uint (word_of_int n :: 32 word) = n"
      using n by (simp add: uint_word_of_int take_bit_int_eq_self flip: take_bit_eq_mod)
    with getLInt_at [of ?m0 "[]" n "writeLShort (manifest_api P) @ writeLInt (flags P) @ ?al @ ?md @ ents"]
    show ?thesis by (simp add: mbuf) (simp add: BinaryBuffer_new_def)
  qed
  have h2: "getLShort (?m0\<lparr>offset := 4\<rparr>) = (Inr (manifest_api P), ?m0\<lparr>offset := 6\<rparr>)"
    using getLShort_at [of "?m0\<lparr>offset := 4\<rparr>" "writeLInt n" "manifest_api P" "writeLInt (flags P) @ ?al @ ?md @ ents"] api
    by (simp add: mbuf)
  have h3: "getLInt (?m0\<lparr>offset := 6\<rparr>)
              = (Inr (uint (word_of_int (flags P) :: 32 word)), ?m0\<lparr>offset := 10\<rparr>)"
    using getLInt_at [of "?m0\<lparr>offset := 6\<rparr>" "writeLInt n @ writeLShort (manifest_api P)" "flags P" "?al @ ?md @ ents"]
    by (simp add: mbuf)
  have h4: "getString (?m0\<lparr>offset := 10\<rparr>)
              = (Inr (phar_alias P), ?m0\<lparr>offset := 14 + int (length (phar_alias P))\<rparr>)"
    using getString_at [of "?m0\<lparr>offset := 10\<rparr>" "writeLInt n @ writeLShort (manifest_api P) @ writeLInt (flags P)"
        "phar_alias P" "?md @ ents"] sizes
    by (simp add: mbuf)
  have h5: "getString (?m0\<lparr>offset := 14 + int (length (phar_alias P))\<rparr>)
              = (Inr (phar_metadata P),
                 ?m0\<lparr>offset := 18 + int (length (phar_alias P)) + int (length (phar_metadata P))\<rparr>)"
    using getString_at [of "?m0\<lparr>offset := 14 + int (length (phar_alias P))\<rparr>"
        "writeLInt n @ writeLShort (manifest_api P) @ writeLInt (flags P) @ ?al"
        "phar_metadata P" ents] sizes
    by (simp add: mbuf)
  have hl: "int (length (manifest_header P n)) = 18 + int (length (phar_alias P)) + int (length (phar_metadata P))"
    by (simp add: manifest_header_def)
  show ?thesis
    unfolding load_manifest_def hl
    using idx len g1 g2 h1 h2 h3 h4 h5
    by (simp add: thenB_def Let_def BinaryBuffer_new_def)
qed

subsection \<open>Flags and octet arrays\<close>

lemma word_of_int_sint32: "word_of_int (sint (w :: 32 word)) = w"
  by simp

lemma flags_split:
  assumes p: "0 \<le> permission f" "permission f \<le> 4095"
    and c: "compression_type f = COMPRESSION_NONE \<or> compression_type f = COMPRESSION_GZ"
  shows "sint ((word_of_int (getPharFlags f) :: 32 word) AND 0xfff) = permission f"
    and "sint ((word_of_int (getPharFlags f) :: 32 word) AND 0xf000) = compression_type f"
proof -
  let ?wp = "word_of_int (permission f) :: 32 word"
  let ?wc = "word_of_int (compression_type f) :: 32 word"
  have m: "(4095 :: 32 word) = mask 12" by (simp add: mask_eq_exp_minus_1)
  have "take_bit 12 (permission f) = permission f" using p by (simp add: take_bit_int_eq_self)
  then have low: "?wp AND 4095 = ?wp" by (simp add: m and_mask_wi)
  have "?wp AND 61440 = (?wp AND 4095) AND 61440" by (simp only: low)
  also have "\<dots> = ?wp AND (4095 AND 61440)" by (simp only: and.assoc)
  also have "\<dots> = 0" by simp
  finally have high: "?wp AND 61440 = 0" .
  from c have wc: "?wc AND 4095 = 0" "?wc AND 61440 = ?wc" "sint ?wc = compression_type f"
    by (auto simp add: COMPRESSION_NONE_def COMPRESSION_GZ_def)
  have sp: "sint ?wp = permission f"
    using p by (simp add: sint_sbintrunc' signed_take_bit_int_eq_self)
  have W: "(word_of_int (getPharFlags f) :: 32 word) = ?wp OR ?wc"
    by (simp add: getPharFlags_def)
  show "sint ((word_of_int (getPharFlags f) :: 32 word) AND 0xfff) = permission f"
    by (simp only: W bit.conj_disj_distrib2 low wc) (simp add: sp)
  show "sint ((word_of_int (getPharFlags f) :: 32 word) AND 0xf000) = compression_type f"
    by (simp only: W bit.conj_disj_distrib2 high wc) (simp add: wc)
qed

lemma toUint8Array_fromUint8Array: "toUint8Array (fromUint8Array u) = u"
proof -
  have "word_of_nat (of_char (char_of (unat w))) = w" for w :: "8 word"
  proof -
    have "unat w < 2 ^ 8" using unsigned_less [of w, where 'a = nat] by simp
    then have "unat w mod 256 = unat w" by simp
    then show ?thesis by (simp add: of_char_of)
  qed
  then show ?thesis by (simp add: toUint8Array_def fromUint8Array_def map_idI)
qed

subsection \<open>The constructor on what the decoder reads\<close>

lemma PharFile_new_read:
  assumes inv: "inflate_inverts z" and g: "bound_globals g"
    and f: "storable_file z f" and cs: "getCompressedContents z f = Inr cs"
  shows "\<exists>g'. bound_globals g' \<and> PharFile_new g now z (name f) cs (read_options f) = Inr (g', f)"
proof -
  from g obtain tv pv where tv: "time g = Some tv" and pv: "perm g = Some pv" "0 \<le> pv"
    by (auto simp add: bound_globals_def split: option.splits)
  from f have nm: "name f \<noteq> []" and ts: "0 < timestamp f" "timestamp f < 2 ^ 32"
    and p: "0 < permission f" "permission f \<le> 4095"
    and c: "compression_type f = COMPRESSION_NONE \<or> compression_type f = COMPRESSION_GZ"
    by (simp_all add: storable_file_def)
  from p have p0: "0 \<le> permission f" by simp
  have fl: "sint ((word_of_int (getPharFlags f) :: 32 word) AND 0xfff) = permission f"
    "sint ((word_of_int (getPharFlags f) :: 32 word) AND 0xf000) = compression_type f"
    by (rule flags_split [OF p0 p(2) c])+
  have tsr: "uint (word_of_int (timestamp f) :: 32 word) = timestamp f"
    using ts by (simp add: uint_word_of_int take_bit_int_eq_self flip: take_bit_eq_mod)
  let ?blank = "\<lparr>name = name f, contents = [], compression_type = 0, timestamp = 0,
                 permission = 0, metadata = []\<rparr>"
  have s1: "setCompressionType (compression_type f) ?blank
              = Inr (?blank\<lparr>compression_type := compression_type f\<rparr>)"
    using c by (auto simp add: setCompressionType_def SUPPORTED_COMPRESSION_def
        COMPRESSION_NONE_def COMPRESSION_GZ_def)
  have s2: "setContents z cs True (?blank\<lparr>compression_type := compression_type f\<rparr>)
              = Inr (?blank\<lparr>compression_type := compression_type f, contents := contents f\<rparr>)"
  proof (cases "compression_type f = COMPRESSION_GZ")
    case True
    with cs obtain v where v: "RawDeflate z (toUint8Array (contents f)) = Some v"
      and csv: "cs = fromUint8Array v"
      by (auto simp add: getCompressedContents_def split: option.splits)
    from inv v have "RawInflate z v = Some (toUint8Array (contents f))"
      by (simp add: inflate_inverts_def)
    with True csv show ?thesis
      by (simp add: setContents_def COMPRESSION_NONE_def COMPRESSION_GZ_def
          toUint8Array_fromUint8Array fromUint8Array_toUint8Array)
  next
    case False
    with c cs show ?thesis by (auto simp add: setContents_def getCompressedContents_def)
  qed
  let ?g' = "if tv < 0 then g\<lparr>time := Some now\<rparr> else g"
  have bg: "bound_globals ?g'" using g by (simp add: bound_globals_def)
  have pg: "perm ?g' = Some pv" using pv by simp
  have "PharFile_new g now z (name f) cs (read_options f)
          = Inr (?g', \<lparr>name = name f, contents = contents f, compression_type = compression_type f,
                       timestamp = timestamp f, permission = permission f, metadata = metadata f\<rparr>)"
    using nm ts p tv pv s1 s2
    by (simp add: PharFile_new_def read_options_def fl tsr or_str_def or_num_def or_bool_def
        thenE_def setTimestamp_def setPermission_def COMPRESSION_NONE_def Let_def)
  with bg show ?thesis by (intro exI [of _ ?g']) simp
qed

subsection \<open>loadPharData: the loop over the entries\<close>

lemma delete_first_absent:
  "n \<notin> name ` set (entries xs) \<Longrightarrow> delete_first n xs = xs"
  by (induction n xs rule: delete_first.induct) auto

lemma crc32_reread: "uint (word_of_int (crc32 s) :: 32 word) = crc32 s"
  by (simp add: crc32_def Let_def)

lemma set_entries_append_Some: "entries (xs @ [Some f]) = entries xs @ [f]"
  by (simp add: entries_append)

lemma load_files_layout:
  assumes inv: "inflate_inverts z"
  shows "bound_globals g \<Longrightarrow> list_all (storable_file z) fs \<Longrightarrow> length css = length fs \<Longrightarrow>
     list_all2 (\<lambda>f cs. getCompressedContents z f = Inr cs) fs css \<Longrightarrow>
     distinct (map name (entries xs0 @ fs)) \<Longrightarrow>
     buffer mb = pre @ manifest_entries fs css @ rest \<Longrightarrow> offset mb = int (length pre) \<Longrightarrow>
     buffer cb = cpre @ concat css @ crest \<Longrightarrow> offset cb = int (length cpre) \<Longrightarrow>
     files P = FilesArray xs0 \<Longrightarrow>
     \<exists>g' mb' cb'. bound_globals g'
        \<and> load_files (length fs) now z (g, mb, cb, P)
            = Inr (g', mb', cb', P\<lparr>files := FilesArray (xs0 @ map Some fs)\<rparr>)"
proof (induction fs arbitrary: css g mb cb P pre cpre xs0)
  case Nil
  then show ?case by (cases P) auto
next
  case (Cons f fs)
  from Cons.prems(3) obtain cs css' where css: "css = cs # css'" and len': "length css' = length fs"
    by (cases css) auto
  from Cons.prems(4) css have cs: "getCompressedContents z f = Inr cs"
    and rest2: "list_all2 (\<lambda>f cs. getCompressedContents z f = Inr cs) fs css'" by simp_all
  from Cons.prems(2) have sf: "storable_file z f" and sfs: "list_all (storable_file z) fs" by simp_all
  from sf cs have sizes: "length (name f) < 2 ^ 32" "length (metadata f) < 2 ^ 32" "length cs < 2 ^ 32"
    by (simp_all add: storable_file_def)
  have mbuf: "buffer mb = pre @ manifest_entry f cs @ (manifest_entries fs css' @ rest)"
    using Cons.prems(6) css by simp
  have cbuf: "buffer cb = cpre @ cs @ (concat css' @ crest)"
    using Cons.prems(8) css by simp
  from PharFile_new_read [OF inv Cons.prems(1) sf cs, of now]
  obtain g1 where g1: "bound_globals g1"
    and new: "PharFile_new g now z (name f) cs (read_options f) = Inr (g1, f)" by blast
  from Cons.prems(5) have absent: "name f \<notin> name ` set (entries xs0)" by auto
  have add: "addFile f P = Inr (P\<lparr>files := FilesArray (xs0 @ [Some f])\<rparr>)"
    using Cons.prems(10) absent by (simp add: addFile_def removeFile_def delete_first_absent)
  let ?mb1 = "mb\<lparr>offset := int (length pre) + int (length (manifest_entry f cs))\<rparr>"
  let ?cb1 = "cb\<lparr>offset := int (length cpre) + int (length cs)\<rparr>"
  let ?P1 = "P\<lparr>files := FilesArray (xs0 @ [Some f])\<rparr>"
  have step: "load_file now z (g, mb, cb, P) = Inr (g1, ?mb1, ?cb1, ?P1)"
    using load_file_at [OF mbuf Cons.prems(7) cbuf Cons.prems(9) sizes, of now z g P]
    by (simp add: new thenE_def crc32_reread add)
  have d1: "distinct (map name (entries (xs0 @ [Some f]) @ fs))"
    using Cons.prems(5) by (simp add: entries_append)
  have b1: "buffer ?mb1 = (pre @ manifest_entry f cs) @ manifest_entries fs css' @ rest"
    using mbuf by simp
  have o1: "offset ?mb1 = int (length (pre @ manifest_entry f cs))" by simp
  have b2: "buffer ?cb1 = (cpre @ cs) @ concat css' @ crest" using cbuf by simp
  have o2: "offset ?cb1 = int (length (cpre @ cs))" by simp
  have f1: "files ?P1 = FilesArray (xs0 @ [Some f])" by simp
  from Cons.IH [OF g1 sfs len' rest2 d1 b1 o1 b2 o2 f1]
  obtain g' mb' cb' where "bound_globals g'"
    and "load_files (length fs) now z (g1, ?mb1, ?cb1, ?P1)
           = Inr (g', mb', cb', ?P1\<lparr>files := FilesArray ((xs0 @ [Some f]) @ map Some fs)\<rparr>)"
    by blast
  with step show ?case by (auto simp add: thenE_def)
qed

subsection \<open>The round trip where the page binds the globals\<close>

lemma length_manifest_entries:
  "length css = length fs \<Longrightarrow>
     length (manifest_entries fs css)
       = sum_list (map (\<lambda>f. 28 + length (name f) + length (metadata f)) fs)"
  by (induction fs css rule: manifest_entries.induct) (simp_all add: length_manifest_entry)

lemma no_holes: "list_all (\<lambda>x. x \<noteq> None) xs \<Longrightarrow> map Some (entries xs) = xs"
  by (induction xs rule: entries.induct) simp_all

lemma loadPharData_as_string:
  "loadPharData g now z h d this = loadPharData g now z h (Str (as_string d)) this"
  by (simp add: loadPharData_def as_string_def)

theorem loadPharData_savePharData:
  assumes inv: "inflate_inverts z" and std: "standard_Hashes h" and g: "bound_globals g"
    and A: "storable_archive z A" and sv: "savePharData z h as_u8a A = Inr d"
  shows "\<exists>g'. loadPharData g now z h d this
                 = Inr (g', A\<lparr>signature_type := signature_type this\<rparr>)"
proof -
  let ?k = "signature_type A"
  from sv obtain n xs css hasher where
    xs: "files A = FilesArray xs" "n = int (length xs)" "xs \<noteq> []"
    and css: "length css = length (entries xs)"
      "list_all2 (\<lambda>f cs. getCompressedContents z f = Inr cs) (entries xs) css"
    and hs: "save_hasher h ?k = Some hasher"
    and shape: "as_string d =
           (stub A @ writeLInt (int (length (manifest_header A n @ manifest_entries (entries xs) css)))
              @ (manifest_header A n @ manifest_entries (entries xs) css) @ concat css)
           @ hasher (stub A @ writeLInt (int (length (manifest_header A n @ manifest_entries (entries xs) css)))
              @ (manifest_header A n @ manifest_entries (entries xs) css) @ concat css)
           @ writeLInt ?k @ END_MAGIC"
    by (rule savePharData_layout)
  let ?fs = "entries xs"
  let ?man = "manifest_header A n @ manifest_entries ?fs css"
  let ?S = "stub A @ writeLInt (int (length ?man)) @ ?man @ concat css"
  from A xs have stub: "normal_stub (stub A)"
    and fl: "0 \<le> flags A" "flags A < 2 ^ 32"
    and api: "0 \<le> manifest_api A" "manifest_api A < 2 ^ 16"
    and ms: "manifest_size A < 2 ^ 32"
    and holes: "list_all (\<lambda>x. x \<noteq> None) xs" and nxs: "length xs < 2 ^ 32"
    and dist: "distinct (map name ?fs)" and sfs: "list_all (storable_file z) ?fs"
    by (simp_all add: storable_archive_def)
  have lman: "length ?man = manifest_size A"
    by (simp add: manifest_size_def xs manifest_header_def length_manifest_entries [OF css(1)])
  from ms have sizes: "length (phar_alias A) < 2 ^ 32" "length (phar_metadata A) < 2 ^ 32"
    by (simp_all add: manifest_size_def)
  from lman ms have lman': "length ?man < 2 ^ 32" by simp
  have n: "0 \<le> n" "n < 2 ^ 32" using xs nxs by simp_all
  have nn: "nat n = length ?fs"
    using xs no_holes [OF holes] by (metis length_map nat_int)
  \<comment> \<open>the envelope\<close>
  have lh: "load_hasher h (readLInt (writeLInt ?k)) = Some (int (length (hasher ?S)), hasher)"
    using save_load_hasher [OF hs] readLInt_type [OF hs] standard_digest_length [OF std hs, of ?S]
    by simp
  have env: "loadPharData g now z h d this = load_manifest g now z ?S this"
    using loadPharData_envelope [of "writeLInt ?k" h "hasher ?S" hasher g now z ?S this, OF _ lh]
    by (simp add: loadPharData_as_string [of g now z h d] shape)
  \<comment> \<open>the header\<close>
  let ?this1 = "this\<lparr>stub := stub A, manifest_api := manifest_api A,
                     flags := uint (word_of_int (flags A) :: 32 word),
                     phar_alias := phar_alias A, phar_metadata := phar_metadata A,
                     files := FilesArray []\<rparr>"
  let ?mb = "\<lparr>buffer = ?man, offset = int (length (manifest_header A n))\<rparr>"
  let ?cb = "\<lparr>buffer = ?S, offset = int (length (stub A)) + 4 + int (length ?man)\<rparr>"
  have hdr: "load_manifest g now z ?S this =
           thenE (load_files (nat n) now z (g, ?mb, ?cb, ?this1))
             (\<lambda>(g1, m6, b3, this1). Inr (g1, this1))"
    by (rule load_manifest_layout [OF stub refl lman' n api sizes])
  \<comment> \<open>the files\<close>
  have "\<exists>g' mb' cb'. bound_globals g'
        \<and> load_files (length ?fs) now z (g, ?mb, ?cb, ?this1)
            = Inr (g', mb', cb', ?this1\<lparr>files := FilesArray ([] @ map Some ?fs)\<rparr>)"
  proof (rule load_files_layout [OF inv g sfs css])
    show "distinct (map name (entries [] @ ?fs))" using dist by simp
    show "buffer ?mb = manifest_header A n @ manifest_entries ?fs css @ []" by simp
    show "offset ?mb = int (length (manifest_header A n))" by simp
    show "buffer ?cb = (stub A @ writeLInt (int (length ?man)) @ ?man) @ concat css @ []" by simp
    show "offset ?cb = int (length (stub A @ writeLInt (int (length ?man)) @ ?man))" by simp
    show "files ?this1 = FilesArray []" by simp
  qed
  then obtain g' mb' cb' where
    loop: "load_files (nat n) now z (g, ?mb, ?cb, ?this1)
             = Inr (g', mb', cb', ?this1\<lparr>files := FilesArray (map Some ?fs)\<rparr>)"
    by (auto simp add: nn)
  have flr: "uint (word_of_int (flags A) :: 32 word) = flags A"
    using fl by (simp add: uint_word_of_int take_bit_int_eq_self flip: take_bit_eq_mod)
  have "?this1\<lparr>files := FilesArray (map Some ?fs)\<rparr> = A\<lparr>signature_type := signature_type this\<rparr>"
    by (cases A, cases this) (use xs(1) no_holes [OF holes] flr in simp)
  with env hdr loop show ?thesis by (simp add: thenE_def)
qed

subsection \<open>loadPharData in the scope of the library\<close>

text \<open>In the library's own scope\<close>

lemma PharFile_new_without_globals:
  "PharFile_new no_globals now z nm cs options =
     (let type = or_num (opt_compression_type options) COMPRESSION_NONE
      in if type \<notin> set SUPPORTED_COMPRESSION then Inl (CompressionNotSupported type)
         else if or_bool (opt_is_compressed options) False \<and> type = COMPRESSION_GZ
                 \<and> RawInflate z (toUint8Array (or_str (Some cs) [])) = None
              then Inl RawInflateError
              else Inl (ReferenceError ''time''))"
  by (auto simp add: PharFile_new_def Let_def thenE_def setCompressionType_def setContents_def
      setTimestamp_def no_globals_def SUPPORTED_COMPRESSION_def COMPRESSION_NONE_def
      COMPRESSION_GZ_def split: option.splits)

lemma PharFile_new_without_globals_error:
  "\<exists>e. PharFile_new no_globals now z nm cs options = Inl e \<and> e \<noteq> FileCorrupt"
  by (simp add: PharFile_new_without_globals Let_def)

lemma get_error: "get n b = (Inl e, b') \<Longrightarrow> e = OutOfBounds"
  by (auto simp add: get_def Let_def split: if_splits)

lemma getLInt_error: "getLInt b = (Inl e, b') \<Longrightarrow> e = OutOfBounds"
  by (auto simp add: getLInt_def split: prod.splits sum.splits dest: get_error)

lemma getLShort_error: "getLShort b = (Inl e, b') \<Longrightarrow> e = OutOfBounds"
  by (auto simp add: getLShort_def split: prod.splits sum.splits dest: get_error)

lemma getString_error: "getString b = (Inl e, b') \<Longrightarrow> e = OutOfBounds"
  by (auto simp add: getString_def split: prod.splits sum.splits dest: get_error getLInt_error)

lemma thenB_error:
  assumes "\<And>e b'. r = (Inl e, b') \<Longrightarrow> Q e"
    and "\<And>x b'. r = (Inr x, b') \<Longrightarrow> \<exists>e. k x b' = Inl e \<and> Q e"
  shows "\<exists>e. thenB r k = Inl e \<and> Q e"
proof (cases r)
  case (Pair v b')
  then show ?thesis using assms by (cases v) (auto simp add: thenB_def)
qed

lemma load_file_without_globals:
  "\<exists>e. load_file now z (no_globals, mb, cb, P) = Inl e \<and> e \<noteq> FileCorrupt"
  unfolding load_file_def prod.case Let_def
  apply (rule thenB_error, drule getString_error, simp)
  apply (rule thenB_error, drule getLInt_error, simp)
  apply (rule thenB_error, drule getLInt_error, simp)
  apply (rule thenB_error, drule getLInt_error, simp)
  apply (rule thenB_error, drule getLInt_error, simp)
  apply (rule thenB_error, drule getString_error, simp)
  apply (rule thenB_error, drule get_error, simp)
  apply (simp add: thenE_def PharFile_new_without_globals Let_def)
  done

lemma load_files_without_globals:
  "load_files n now z (no_globals, mb, cb, P) =
     (case n of 0 \<Rightarrow> Inr (no_globals, mb, cb, P)
      | Suc m \<Rightarrow> load_file now z (no_globals, mb, cb, P))"
proof (cases n)
  case 0
  then show ?thesis by simp
next
  case (Suc m)
  from load_file_without_globals [of now z mb cb P] obtain e
    where "load_file now z (no_globals, mb, cb, P) = Inl e" by blast
  with Suc show ?thesis by (simp add: thenE_def)
qed

lemma load_files_without_globals_result:
  "(\<exists>e. load_files n now z (no_globals, mb, cb, P) = Inl e \<and> e \<noteq> FileCorrupt)
   \<or> load_files n now z (no_globals, mb, cb, P) = Inr (no_globals, mb, cb, P)"
  using load_file_without_globals [of now z mb cb P]
  by (cases n) (auto simp add: load_files_without_globals)

lemma thenB_loads_nothing:
  assumes "\<And>e b'. r = (Inl e, b') \<Longrightarrow> e \<noteq> FileCorrupt"
    and "\<And>x b'. r = (Inr x, b') \<Longrightarrow> loads_nothing (k x b')"
  shows "loads_nothing (thenB r k)"
proof (cases r)
  case (Pair v b')
  then show ?thesis using assms by (cases v) (auto simp add: thenB_def loads_nothing_def)
qed

lemma load_manifest_without_globals: "loads_nothing (load_manifest no_globals now z S this)"
proof (cases "indexOf S STUB_END = - 1")
  case True
  then show ?thesis by (simp add: load_manifest_def loads_nothing_def)
next
  case False
  have loop: "loads_nothing (thenE (load_files n now z (no_globals, mb, cb,
                  P\<lparr>files := FilesArray []\<rparr>)) (\<lambda>(g1, m6, b3, this1). Inr (g1, this1)))"
    for n mb cb and P :: Phar
    using load_files_without_globals_result [of n now z mb cb "P\<lparr>files := FilesArray []\<rparr>"]
    by (auto simp add: loads_nothing_def thenE_def)
  from False show ?thesis
    unfolding load_manifest_def Let_def
    apply (simp only: if_False)
    apply (rule thenB_loads_nothing, drule get_error, simp)
    apply (rule thenB_loads_nothing, drule getString_error, simp)
    apply (rule thenB_loads_nothing, drule getLInt_error, simp)
    apply (rule thenB_loads_nothing, drule getLShort_error, simp)
    apply (rule thenB_loads_nothing, drule getLInt_error, simp)
    apply (rule thenB_loads_nothing, drule getString_error, simp)
    apply (rule thenB_loads_nothing, drule getString_error, simp)
    subgoal for st b1 man b2 n m1 api m2 fl m3 al m4 md m5
      using loop [of "nat n" m5 b2 "this\<lparr>stub := st, manifest_api := api, flags := fl,
                             phar_alias := al, phar_metadata := md\<rparr>"]
      by simp
    done
qed

lemma loadPharData_without_globals: "loads_nothing (loadPharData no_globals now z h d this)"
  using load_manifest_without_globals [of now z _ this]
  by (auto simp add: loadPharData_def Let_def loads_nothing_def split: option.splits)

subsection \<open>The round trip in the scope of the library\<close>

lemma normal_stub_default: "normal_stub (''<?php '' @ STUB_END)"
  by (simp add: normal_stub_def occurs_at_def STUB_END_def
      upt_rec [of _ "numeral n" for n] upt_rec [of _ "Suc n" for n])

text \<open>An encoded archive whose first file is stored without compression, decoded in a
  scope without \<^verbatim>\<open>time\<close>: the first \<^verbatim>\<open>new PharUtils.PharFile\<close> throws.\<close>

lemma loadPharData_savePharData_without_globals:
  assumes std: "standard_Hashes h" and sv: "savePharData z h as_u8a A = Inr d"
    and stub: "normal_stub (stub A)"
    and api: "0 \<le> manifest_api A" "manifest_api A < 2 ^ 16"
    and ms: "manifest_size A < 2 ^ 32"
    and xs: "files A = FilesArray (Some f # xs')" and nxs: "length (Some f # xs') < 2 ^ 32"
    and p: "0 \<le> permission f" "permission f \<le> 4095"
    and c: "compression_type f = COMPRESSION_NONE"
    and sz: "length (contents f) < 2 ^ 32"
  shows "loadPharData no_globals now z' h d this = Inl (ReferenceError ''time'')"
proof -
  let ?k = "signature_type A"
  from sv obtain n xs0 css hasher where
    xs0: "files A = FilesArray xs0" "n = int (length xs0)"
    and css: "length css = length (entries xs0)"
      "list_all2 (\<lambda>f cs. getCompressedContents z f = Inr cs) (entries xs0) css"
    and hs: "save_hasher h ?k = Some hasher"
    and shape: "as_string d =
           (stub A @ writeLInt (int (length (manifest_header A n @ manifest_entries (entries xs0) css)))
              @ (manifest_header A n @ manifest_entries (entries xs0) css) @ concat css)
           @ hasher (stub A @ writeLInt (int (length (manifest_header A n @ manifest_entries (entries xs0) css)))
              @ (manifest_header A n @ manifest_entries (entries xs0) css) @ concat css)
           @ writeLInt ?k @ END_MAGIC"
    by (rule savePharData_layout)
  from xs xs0 have xs0_eq: "xs0 = Some f # xs'" by simp
  from css xs0_eq obtain css' where css_eq: "css = contents f # css'"
    by (cases css) (auto simp add: getCompressedContents_def c COMPRESSION_NONE_def COMPRESSION_GZ_def)
  let ?fs = "entries xs0"
  let ?man = "manifest_header A n @ manifest_entries ?fs css"
  let ?S = "stub A @ writeLInt (int (length ?man)) @ ?man @ concat css"
  have lman: "length ?man = manifest_size A"
    by (simp add: manifest_size_def xs0 manifest_header_def length_manifest_entries [OF css(1)])
  from ms have sizes: "length (phar_alias A) < 2 ^ 32" "length (phar_metadata A) < 2 ^ 32"
    by (simp_all add: manifest_size_def)
  from ms xs have fsz: "length (name f) < 2 ^ 32" "length (metadata f) < 2 ^ 32"
    by (simp_all add: manifest_size_def)
  from lman ms have lman': "length ?man < 2 ^ 32" by simp
  have n: "0 \<le> n" "n < 2 ^ 32" using xs0 xs0_eq nxs by simp_all
  have nn: "nat n = Suc (length xs')" using xs0 xs0_eq by simp
  have lh: "load_hasher h (readLInt (writeLInt ?k)) = Some (int (length (hasher ?S)), hasher)"
    using save_load_hasher [OF hs] readLInt_type [OF hs] standard_digest_length [OF std hs, of ?S]
    by simp
  have env: "loadPharData no_globals now z' h d this = load_manifest no_globals now z' ?S this"
    using loadPharData_envelope [of "writeLInt ?k" h "hasher ?S" hasher no_globals now z' ?S this, OF _ lh]
    by (simp add: loadPharData_as_string [of no_globals now z' h d] shape)
  let ?this1 = "this\<lparr>stub := stub A, manifest_api := manifest_api A,
                     flags := uint (word_of_int (flags A) :: 32 word),
                     phar_alias := phar_alias A, phar_metadata := phar_metadata A,
                     files := FilesArray []\<rparr>"
  let ?mb = "\<lparr>buffer = ?man, offset = int (length (manifest_header A n))\<rparr>"
  let ?cb = "\<lparr>buffer = ?S, offset = int (length (stub A)) + 4 + int (length ?man)\<rparr>"
  have hdr: "load_manifest no_globals now z' ?S this =
           thenE (load_files (nat n) now z' (no_globals, ?mb, ?cb, ?this1))
             (\<lambda>(g1, m6, b3, this1). Inr (g1, this1))"
    by (rule load_manifest_layout [OF stub refl lman' n api sizes])
  have loop: "load_files (nat n) now z' (no_globals, ?mb, ?cb, ?this1)
                = load_file now z' (no_globals, ?mb, ?cb, ?this1)"
    by (simp add: load_files_without_globals nn)
  have mbuf: "buffer ?mb = manifest_header A n @ manifest_entry f (contents f)
                 @ (manifest_entries (entries xs') css' @ [])"
    by (simp add: xs0_eq css_eq)
  have cbuf: "buffer ?cb = (stub A @ writeLInt (int (length ?man)) @ ?man) @ contents f
                 @ (concat css' @ [])"
    by (simp add: css_eq)
  have co: "offset ?cb = int (length (stub A @ writeLInt (int (length ?man)) @ ?man))" by simp
  have type: "sint ((word_of_int (getPharFlags f) :: 32 word) AND 0xf000) = 0"
    using flags_split(2) [OF p] c by (simp add: COMPRESSION_NONE_def)
  have new: "PharFile_new no_globals now z' (name f) (contents f) (read_options f)
               = Inl (ReferenceError ''time'')"
    by (simp add: PharFile_new_without_globals read_options_def type or_num_def Let_def
        SUPPORTED_COMPRESSION_def COMPRESSION_NONE_def COMPRESSION_GZ_def)
  have "load_file now z' (no_globals, ?mb, ?cb, ?this1) = Inl (ReferenceError ''time'')"
    using load_file_at [OF mbuf _ cbuf co fsz sz, of now z' no_globals ?this1]
    by (simp add: new thenE_def)
  with env hdr loop show ?thesis by (simp add: thenE_def)
qed

text \<open>Claim C1. Decoding what the encoder wrote gives the archive back, field by field.
  In the scope of the library, where no variable \<^verbatim>\<open>time\<close> is declared, this is not what
  the code does. For the archive of scenario S1 (one file \<^verbatim>\<open>a.txt\<close> with the contents
  \<^verbatim>\<open>hi\<close>, stored, signed with SHA1) \<^verbatim>\<open>savePharData\<close> returns a buffer, and
  \<^verbatim>\<open>loadPharData\<close> of that buffer on a new archive returns no archive: it constructs a
  \<^verbatim>\<open>PharFile\<close> for the first entry, the constructor calls \<^verbatim>\<open>setTimestamp\<close>, and that
  throws the ReferenceError for \<^verbatim>\<open>time\<close>. (Where a page binds the globals, theorem
  \<open>loadPharData_savePharData\<close> gives all fields back but the signature type, for
  archives whose numbers the constructor's defaults leave alone; the timestamp 0 of
  scenario S1 comes back as \<open>- 1\<close>, lemma \<open>S1_round_trip_with_globals\<close>.)\<close>

theorem S1_round_trip_without_globals:
  "(case savePharData stored_Zlib first_octet_Hashes False S1_archive of
      Inl e \<Rightarrow> False
    | Inr d \<Rightarrow>
        loadPharData no_globals 0 stored_Zlib first_octet_Hashes d fresh_Phar
          = Inl (ReferenceError ''time''))"
proof -
  from S1_saved obtain d where d: "savePharData stored_Zlib first_octet_Hashes False S1_archive = Inr d"
    by blast
  have "loadPharData no_globals 0 stored_Zlib first_octet_Hashes d fresh_Phar
          = Inl (ReferenceError ''time'')"
  proof (rule loadPharData_savePharData_without_globals [OF standard_first_octet_Hashes d])
    show "normal_stub (stub S1_archive)"
      using normal_stub_default by (simp add: S1_archive_def fresh_Phar_def)
    show "files S1_archive = FilesArray (Some a_txt # [])" by (simp add: S1_archive_def)
  qed (simp_all add: S1_archive_def fresh_Phar_def a_txt_def manifest_size_def COMPRESSION_NONE_def)
  with d show ?thesis by simp
qed

subsection \<open>A corrupt file\<close>

text \<open>What the decoder does with the first file of a manifest.\<close>

lemma load_manifest_first_file:
  assumes stub: "normal_stub st"
    and man: "man = manifest_header P n @ manifest_entry f cs @ ents" "length man < 2 ^ 32"
    and n: "0 < n" "n < 2 ^ 32"
    and api: "0 \<le> manifest_api P" "manifest_api P < 2 ^ 16"
    and sizes: "length (phar_alias P) < 2 ^ 32" "length (phar_metadata P) < 2 ^ 32"
    and fsz: "length (name f) < 2 ^ 32" "length (metadata f) < 2 ^ 32" "length cs < 2 ^ 32"
  shows "\<exists>mb cb0 this1 mb' cb'.
           files this1 = FilesArray []
           \<and> load_manifest g now z (st @ writeLInt (int (length man)) @ man @ cs @ cts) this =
               thenE (thenE (load_file now z (g, mb, cb0, this1)) (load_files (nat n - 1) now z))
                 (\<lambda>(g1, m6, b3, this2). Inr (g1, this2))
           \<and> load_file now z (g, mb, cb0, this1) =
               thenE (PharFile_new g now z (name f) cs (read_options f))
                 (\<lambda>(g1, file).
                    if uint (word_of_int (crc32 (contents f)) :: 32 word) \<noteq> crc32 (contents file)
                    then Inl FileCorrupt
                    else thenE (addFile file this1) (\<lambda>P1.
                           Inr (g1, mb', cb', P1)))"
proof -
  let ?S = "st @ writeLInt (int (length man)) @ man @ cs @ cts"
  let ?this1 = "this\<lparr>stub := st, manifest_api := manifest_api P,
                     flags := uint (word_of_int (flags P) :: 32 word),
                     phar_alias := phar_alias P, phar_metadata := phar_metadata P,
                     files := FilesArray []\<rparr>"
  let ?mb = "\<lparr>buffer = man, offset = int (length (manifest_header P n))\<rparr>"
  let ?cb = "\<lparr>buffer = ?S, offset = int (length st) + 4 + int (length man)\<rparr>"
  from n have n0: "0 \<le> n" by simp
  have hdr: "load_manifest g now z ?S this =
           thenE (load_files (nat n) now z (g, ?mb, ?cb, ?this1))
             (\<lambda>(g1, m6, b3, this1). Inr (g1, this1))"
    by (rule load_manifest_layout [OF stub man n0 n(2) api sizes])
  from n obtain m where m: "nat n = Suc m" by (cases "nat n") auto
  have loop: "load_files (nat n) now z (g, ?mb, ?cb, ?this1)
                = thenE (load_file now z (g, ?mb, ?cb, ?this1)) (load_files (nat n - 1) now z)"
    by (simp add: m)
  have mbuf: "buffer ?mb = manifest_header P n @ manifest_entry f cs @ ents"
    by (simp add: man(1))
  have cbuf: "buffer ?cb = (st @ writeLInt (int (length man)) @ man) @ cs @ cts" by simp
  have co: "offset ?cb = int (length (st @ writeLInt (int (length man)) @ man))" by simp
  have mo: "offset ?mb = int (length (manifest_header P n))" by simp
  have lf: "load_file now z (g, ?mb, ?cb, ?this1) =
               thenE (PharFile_new g now z (name f) cs (read_options f))
                 (\<lambda>(g1, file).
                    if uint (word_of_int (crc32 (contents f)) :: 32 word) \<noteq> crc32 (contents file)
                    then Inl FileCorrupt
                    else thenE (addFile file ?this1) (\<lambda>P1.
                           Inr (g1, ?mb\<lparr>offset := int (length (manifest_header P n)) + int (length (manifest_entry f cs))\<rparr>,
                                ?cb\<lparr>offset := int (length (st @ writeLInt (int (length man)) @ man)) + int (length cs)\<rparr>, P1)))"
    by (rule load_file_at [OF mbuf mo cbuf co fsz])
  have fe: "files ?this1 = FilesArray []" by simp
  have whole: "load_manifest g now z ?S this =
           thenE (thenE (load_file now z (g, ?mb, ?cb, ?this1)) (load_files (nat n - 1) now z))
             (\<lambda>(g1, m6, b3, this2). Inr (g1, this2))"
    by (simp only: hdr loop)
  from fe whole lf show ?thesis by blast
qed

lemma S1_encoding_envelope:
  "loadPharData g now stored_Zlib first_octet_Hashes (Str (S1_encoding cs)) this
     = load_manifest g now stored_Zlib
         (stub S1_archive
          @ writeLInt (int (length (manifest_header S1_archive 1 @ manifest_entry a_txt cs @ [])))
          @ (manifest_header S1_archive 1 @ manifest_entry a_txt cs @ []) @ cs @ []) this"
proof -
  let ?man = "manifest_header S1_archive 1 @ manifest_entry a_txt cs"
  let ?S = "stub S1_archive @ writeLInt (int (length ?man)) @ ?man @ cs"
  have lh: "load_hasher first_octet_Hashes (readLInt (writeLInt 2))
              = Some (int (length (SHA1 first_octet_Hashes ?S)), SHA1 first_octet_Hashes)"
    using readLInt_writeLInt_word [of 2]
    by (simp add: load_hasher_def SIGNATURE_MD5_def SIGNATURE_SHA1_def first_octet_Hashes_def
        first_octet_def)
  from loadPharData_envelope [of "writeLInt 2" first_octet_Hashes "SHA1 first_octet_Hashes ?S"
      "SHA1 first_octet_Hashes" g now stored_Zlib ?S this, OF _ lh]
  show ?thesis by (simp add: S1_encoding_def Let_def)
qed

lemma S1_encoding_first_file:
  assumes "length cs < 2 ^ 32"
  obtains mb cb0 this1 mb' cb' where "files this1 = FilesArray []"
    and "loadPharData g now stored_Zlib first_octet_Hashes (Str (S1_encoding cs)) this =
           thenE (thenE (load_file now stored_Zlib (g, mb, cb0, this1)) (load_files (nat 1 - 1) now stored_Zlib))
             (\<lambda>(g1, m6, b3, this2). Inr (g1, this2))"
    and "load_file now stored_Zlib (g, mb, cb0, this1) =
           thenE (PharFile_new g now stored_Zlib (name a_txt) cs (read_options a_txt))
             (\<lambda>(g1, file).
                if uint (word_of_int (crc32 (contents a_txt)) :: 32 word) \<noteq> crc32 (contents file)
                then Inl FileCorrupt
                else thenE (addFile file this1) (\<lambda>P1.
                       Inr (g1, mb', cb', P1)))"
proof -
  have stub: "normal_stub (stub S1_archive)"
    using normal_stub_default by (simp add: S1_archive_def fresh_Phar_def)
  have "\<exists>mb cb0 this1 mb' cb'. files this1 = FilesArray []
     \<and> load_manifest g now stored_Zlib
         (stub S1_archive
          @ writeLInt (int (length (manifest_header S1_archive 1 @ manifest_entry a_txt cs @ [])))
          @ (manifest_header S1_archive 1 @ manifest_entry a_txt cs @ []) @ cs @ []) this
        = thenE (thenE (load_file now stored_Zlib (g, mb, cb0, this1)) (load_files (nat 1 - 1) now stored_Zlib))
             (\<lambda>(g1, m6, b3, this2). Inr (g1, this2))
     \<and> load_file now stored_Zlib (g, mb, cb0, this1) =
           thenE (PharFile_new g now stored_Zlib (name a_txt) cs (read_options a_txt))
             (\<lambda>(g1, file).
                if uint (word_of_int (crc32 (contents a_txt)) :: 32 word) \<noteq> crc32 (contents file)
                then Inl FileCorrupt
                else thenE (addFile file this1) (\<lambda>P1.
                       Inr (g1, mb', cb', P1)))"
    by (rule load_manifest_first_file [OF stub refl])
      (insert assms, simp_all add: S1_archive_def fresh_Phar_def a_txt_def manifest_header_def manifest_entry_def)
  then show thesis using that by (auto simp only: S1_encoding_envelope)
qed

lemma S4_first_file:
  obtains mb cb0 this1 mb' cb' where "files this1 = FilesArray []"
    and "loadPharData g now stored_Zlib first_octet_Hashes (Str S4_buffer) this =
           thenE (thenE (load_file now stored_Zlib (g, mb, cb0, this1)) (load_files (nat 1 - 1) now stored_Zlib))
             (\<lambda>(g1, m6, b3, this2). Inr (g1, this2))"
    and "load_file now stored_Zlib (g, mb, cb0, this1) =
           thenE (PharFile_new g now stored_Zlib (name a_txt) ''hh'' (read_options a_txt))
             (\<lambda>(g1, file).
                if uint (word_of_int (crc32 (contents a_txt)) :: 32 word) \<noteq> crc32 (contents file)
                then Inl FileCorrupt
                else thenE (addFile file this1) (\<lambda>P1.
                       Inr (g1, mb', cb', P1)))"
proof -
  have "length ''hh'' < 2 ^ 32" by simp
  then show thesis
    by (rule S1_encoding_first_file [where g = g and now = now and this = this])
      (rule that, simp_all only: S4_buffer_def)
qed

subsection \<open>crc32 is CRC-32/IEEE\<close>

lemma crc_round_eq: "crc_round = crc32_ieee_bit"
proof
  fix c :: "32 word"
  have "(c AND 1 \<noteq> 0) = bit c 0" by (simp add: and_one_eq bit_0 mod_2_eq_odd)
  then show "crc_round c = crc32_ieee_bit c"
    by (simp add: crc_round_def crc32_ieee_bit_def xor.commute)
qed

lemma bit_xor_linear: "crc32_ieee_bit (x XOR y) = crc32_ieee_bit x XOR crc32_ieee_bit y"
  by (simp add: crc32_ieee_bit_def bit_xor_iff drop_bit_eq_div flip: drop_bit_eq_div)
    (auto simp add: bit_eq_iff bit_simps)

lemma bits_xor_linear:
  "(crc32_ieee_bit ^^ n) (x XOR y) = (crc32_ieee_bit ^^ n) x XOR (crc32_ieee_bit ^^ n) y"
  by (induction n) (simp_all add: bit_xor_linear)

lemma bits_of_high:
  "n \<le> 8 \<Longrightarrow> (crc32_ieee_bit ^^ n) (push_bit 8 x) = drop_bit n (push_bit 8 x)"
proof (induction n)
  case 0
  then show ?case by simp
next
  case (Suc n)
  then have "\<not> bit (drop_bit n (push_bit 8 x)) 0" by (simp add: bit_simps)
  with Suc show ?case by (simp add: crc32_ieee_bit_def drop_bit_drop_bit)
qed

lemma split_low_octet: "(x :: 32 word) = push_bit 8 (drop_bit 8 x) XOR (x AND 0xFF)"
  by (rule bit_word_eqI) (auto simp add: bit_simps and_255_take_bit)

lemma table_step:
  "(crc32_ieee_bit ^^ 8) x = drop_bit 8 x XOR (crc32_ieee_bit ^^ 8) (x AND 0xFF)"
proof -
  have "(crc32_ieee_bit ^^ 8) x
          = (crc32_ieee_bit ^^ 8) (push_bit 8 (drop_bit 8 x) XOR (x AND 0xFF))"
    using split_low_octet [of x] by simp
  also have "\<dots> = drop_bit 8 (push_bit 8 (drop_bit 8 x)) XOR (crc32_ieee_bit ^^ 8) (x AND 0xFF)"
    by (simp only: bits_xor_linear bits_of_high [OF order_refl])
  also have "drop_bit 8 (push_bit 8 (drop_bit 8 x)) = drop_bit 8 x"
    by (rule bit_word_eqI) (auto simp add: bit_simps dest: bit_imp_le_length)
  finally show ?thesis .
qed

lemma table_lookup:
  "makeCRCTable ! unat ((x :: 32 word) AND 0xFF) = (crc32_ieee_bit ^^ 8) (x AND 0xFF)"
proof -
  have "unat (x AND 0xFF) \<le> unat (0xFF :: 32 word)"
    by (rule word_and_le1 [THEN word_le_nat_alt [THEN iffD1]])
  then have "unat (x AND 0xFF) < 256" by simp
  then show ?thesis by (simp add: makeCRCTable_def crc_round_eq)
qed

lemma octet_high_zero: "drop_bit 8 (word_of_nat (of_char ch) :: 32 word) = 0"
proof -
  have "take_bit 8 (word_of_nat (of_char ch) :: 32 word) = word_of_nat (of_char ch)"
    by (rule octet_of_char)
  then have "drop_bit 8 (word_of_nat (of_char ch) :: 32 word)
               = drop_bit 8 (take_bit 8 (word_of_nat (of_char ch) :: 32 word))" by simp
  also have "\<dots> = 0" by (rule bit_word_eqI) (simp add: bit_simps)
  finally show ?thesis .
qed

lemma crc32_step:
  "drop_bit 8 crc XOR makeCRCTable ! unat ((crc XOR word_of_nat (of_char ch)) AND 0xFF)
     = crc32_ieee_octet crc ch"
proof -
  let ?x = "crc XOR word_of_nat (of_char ch)"
  have "drop_bit 8 ?x = drop_bit 8 crc XOR drop_bit 8 (word_of_nat (of_char ch))"
    by (rule bit_word_eqI) (simp add: bit_simps)
  then have "drop_bit 8 ?x = drop_bit 8 crc" by (simp only: octet_high_zero) simp
  then show ?thesis
    by (simp add: crc32_ieee_octet_def table_step [of ?x] table_lookup)
qed

lemma crc32_fold:
  "fold (\<lambda>ch crc. drop_bit 8 crc XOR makeCRCTable ! unat ((crc XOR word_of_nat (of_char ch)) AND 0xFF)) str c
     = foldl crc32_ieee_octet c str"
  by (induction str arbitrary: c) (simp_all add: crc32_step)

lemma all_ones_word32: "(0xFFFFFFFF :: 32 word) = - 1"
  by simp

lemma crc32_fold_ieee: "crc32 str = crc32_ieee str"
  by (simp add: crc32_def crc32_ieee_def crc32_fold Let_def all_ones_word32)

text \<open>The table-driven \<^verbatim>\<open>crc32\<close> of the library is CRC-32/IEEE computed bit by bit.\<close>

theorem crc32_is_crc32_ieee: "crc32 str = crc32_ieee str"
  by (rule crc32_fold_ieee)

subsection \<open>Examples of the round trip and of a corrupt file\<close>

lemma crc_round_8:
  "(crc_round ^^ 8) x = crc_round (crc_round (crc_round (crc_round (crc_round (crc_round
     (crc_round (crc_round x)))))))"
  by (simp add: numeral_eq_Suc funpow_swap1)

lemma crcTable_nth: "n < 256 \<Longrightarrow> makeCRCTable ! n = (crc_round ^^ 8) (word_of_nat n)"
  by (simp add: makeCRCTable_def)

lemma minus_1_word32: "(- 1 :: 32 word) = 0xFFFFFFFF"
  by simp

text \<open>Scenario S1: the CRC of \<^verbatim>\<open>hi\<close>; and the check value of CRC-32/IEEE.\<close>

lemma crc32_hi: "crc32 ''hi'' = 0xD8932AAC"
  by (simp add: crc32_def crcTable_nth crc_round_8 crc_round_def Let_def minus_1_word32)

lemma crc32_hh: "crc32 ''hh'' = 0xAF941A3A"
  by (simp add: crc32_def crcTable_nth crc_round_8 crc_round_def Let_def minus_1_word32)

lemma crc32_check_value: "crc32_ieee ''123456789'' = 0xCBF43926"
  unfolding crc32_fold_ieee [symmetric]
  by (simp add: crc32_def crcTable_nth crc_round_8 crc_round_def Let_def minus_1_word32)

lemma inflate_inverts_stored: "inflate_inverts stored_Zlib"
  by (simp add: inflate_inverts_def stored_Zlib_def)

lemma bound_page_globals: "bound_globals page_globals"
  by (simp add: bound_globals_def page_globals_def)

lemma storable_S5: "storable_archive stored_Zlib S5_archive"
  using normal_stub_default
  by (simp add: storable_archive_def S5_archive_def fresh_Phar_def manifest_size_def
      storable_file_def getCompressedContents_def stored_Zlib_def COMPRESSION_NONE_def
      COMPRESSION_GZ_def fromUint8Array_def toUint8Array_def)

lemma S5_saved: "\<exists>d. savePharData stored_Zlib first_octet_Hashes False S5_archive = Inr d"
  by (simp add: savePharData_def S5_archive_def fresh_Phar_def getFilesCount_def thenE_def Let_def
      getCompressedContents_def COMPRESSION_GZ_def save_hasher_def stored_Zlib_def
      SIGNATURE_MD5_def SIGNATURE_SHA1_def)

theorem loadPharData_savePharData_witness:
  "inflate_inverts stored_Zlib \<and> standard_Hashes first_octet_Hashes
   \<and> bound_globals page_globals \<and> storable_archive stored_Zlib S5_archive
   \<and> (\<exists>d. savePharData stored_Zlib first_octet_Hashes False S5_archive = Inr d
        \<and> (\<exists>g'. loadPharData page_globals 0 stored_Zlib first_octet_Hashes d fresh_Phar
                    = Inr (g', S5_archive)))"
proof -
  from S5_saved obtain d where d: "savePharData stored_Zlib first_octet_Hashes False S5_archive = Inr d"
    by blast
  have "S5_archive\<lparr>signature_type := signature_type fresh_Phar\<rparr> = S5_archive"
    by (simp add: S5_archive_def)
  with loadPharData_savePharData [OF inflate_inverts_stored standard_first_octet_Hashes
      bound_page_globals storable_S5 d, of 0 fresh_Phar]
  have "\<exists>g'. loadPharData page_globals 0 stored_Zlib first_octet_Hashes d fresh_Phar
                = Inr (g', S5_archive)" by simp
  with d inflate_inverts_stored standard_first_octet_Hashes bound_page_globals storable_S5
  show ?thesis by blast
qed

text \<open>Scenario S4 where the page binds the two globals: the corrupt file is reported.\<close>

lemma S4_corrupt_file_with_globals:
  "loadPharData page_globals 0 stored_Zlib first_octet_Hashes (Str S4_buffer) fresh_Phar
     = Inl FileCorrupt"
proof -
  obtain mb cb0 this1 mb' cb' where
    1: "loadPharData page_globals 0 stored_Zlib first_octet_Hashes (Str S4_buffer) fresh_Phar =
           thenE (thenE (load_file 0 stored_Zlib (page_globals, mb, cb0, this1)) (load_files (nat 1 - 1) 0 stored_Zlib))
             (\<lambda>(g1, m6, b3, this2). Inr (g1, this2))"
    and 2: "load_file 0 stored_Zlib (page_globals, mb, cb0, this1) =
           thenE (PharFile_new page_globals 0 stored_Zlib (name a_txt) ''hh'' (read_options a_txt))
             (\<lambda>(g1, file).
                if uint (word_of_int (crc32 (contents a_txt)) :: 32 word) \<noteq> crc32 (contents file)
                then Inl FileCorrupt
                else thenE (addFile file this1) (\<lambda>P1. Inr (g1, mb', cb', P1)))"
    by (rule S4_first_file)
  have new: "PharFile_new page_globals 0 stored_Zlib (name a_txt) ''hh'' (read_options a_txt)
          = Inr (page_globals, a_txt\<lparr>contents := ''hh'', timestamp := - 1\<rparr>)"
    by (simp add: PharFile_new_def read_options_def or_num_def or_str_def or_bool_def Let_def
        a_txt_def getPharFlags_def setCompressionType_def setContents_def setTimestamp_def
        setPermission_def page_globals_def thenE_def
        SUPPORTED_COMPRESSION_def COMPRESSION_NONE_def COMPRESSION_GZ_def)
  have "uint (word_of_int (crc32 (contents a_txt)) :: 32 word) \<noteq> crc32 ''hh''"
    by (simp add: crc32_reread a_txt_def crc32_hi crc32_hh)
  with 1 2 new show ?thesis by (simp add: thenE_def)
qed

text \<open>Scenario S1 where the page binds the two globals: the archive comes back, but the
  timestamp 0 of the file has become \<open>- 1\<close>, the default that the constructor's
  \<^verbatim>\<open>options.timestamp || -1\<close> puts for a timestamp of zero.\<close>

lemma S1_saved_encoding:
  assumes "savePharData stored_Zlib first_octet_Hashes as_u8a S1_archive = Inr d"
  shows "as_string d = S1_encoding ''hi''"
proof -
  from assms obtain n xs css hasher where
    xs: "files S1_archive = FilesArray xs" "n = int (length xs)"
    and css: "length css = length (entries xs)"
      "list_all2 (\<lambda>f cs. getCompressedContents stored_Zlib f = Inr cs) (entries xs) css"
    and hs: "save_hasher first_octet_Hashes (signature_type S1_archive) = Some hasher"
    and shape: "as_string d =
           (stub S1_archive @ writeLInt (int (length (manifest_header S1_archive n @ manifest_entries (entries xs) css)))
              @ (manifest_header S1_archive n @ manifest_entries (entries xs) css) @ concat css)
           @ hasher (stub S1_archive @ writeLInt (int (length (manifest_header S1_archive n @ manifest_entries (entries xs) css)))
              @ (manifest_header S1_archive n @ manifest_entries (entries xs) css) @ concat css)
           @ writeLInt (signature_type S1_archive) @ END_MAGIC"
    by (rule savePharData_layout)
  from xs have xs_eq: "xs = [Some a_txt]" "n = 1" by (auto simp add: S1_archive_def)
  have t: "signature_type S1_archive = 2" by (simp add: S1_archive_def fresh_Phar_def)
  from hs have h: "hasher = SHA1 first_octet_Hashes" by (auto simp add: t dest!: save_hasher_cases)
  from css xs_eq have "css = [''hi'']"
    by (cases css) (auto simp add: getCompressedContents_def a_txt_def COMPRESSION_GZ_def)
  with shape xs_eq h t show ?thesis by (simp add: S1_encoding_def Let_def)
qed

lemma S1_round_trip_with_globals:
  "(case savePharData stored_Zlib first_octet_Hashes False S1_archive of
      Inl e \<Rightarrow> False
    | Inr d \<Rightarrow>
        (\<exists>P. loadPharData page_globals 0 stored_Zlib first_octet_Hashes d fresh_Phar
                = Inr (page_globals, P)
             \<and> files P = FilesArray [Some (a_txt\<lparr>timestamp := - 1\<rparr>)]))"
proof -
  from S1_saved obtain d where d: "savePharData stored_Zlib first_octet_Hashes False S1_archive = Inr d"
    by blast
  have enc: "loadPharData page_globals 0 stored_Zlib first_octet_Hashes d fresh_Phar
           = loadPharData page_globals 0 stored_Zlib first_octet_Hashes (Str (S1_encoding ''hi'')) fresh_Phar"
    using loadPharData_as_string [of page_globals 0 stored_Zlib first_octet_Hashes d fresh_Phar]
    by (simp add: S1_saved_encoding [OF d])
  obtain mb cb0 this1 mb' cb' where
    0: "files this1 = FilesArray []"
    and 1: "loadPharData page_globals 0 stored_Zlib first_octet_Hashes (Str (S1_encoding ''hi'')) fresh_Phar =
           thenE (thenE (load_file 0 stored_Zlib (page_globals, mb, cb0, this1)) (load_files (nat 1 - 1) 0 stored_Zlib))
             (\<lambda>(g1, m6, b3, this2). Inr (g1, this2))"
    and 2: "load_file 0 stored_Zlib (page_globals, mb, cb0, this1) =
           thenE (PharFile_new page_globals 0 stored_Zlib (name a_txt) ''hi'' (read_options a_txt))
             (\<lambda>(g1, file).
                if uint (word_of_int (crc32 (contents a_txt)) :: 32 word) \<noteq> crc32 (contents file)
                then Inl FileCorrupt
                else thenE (addFile file this1) (\<lambda>P1. Inr (g1, mb', cb', P1)))"
    by (rule S1_encoding_first_file [of "''hi''"]) simp
  have new: "PharFile_new page_globals 0 stored_Zlib (name a_txt) ''hi'' (read_options a_txt)
          = Inr (page_globals, a_txt\<lparr>timestamp := - 1\<rparr>)"
    by (simp add: PharFile_new_def read_options_def or_num_def or_str_def or_bool_def Let_def
        a_txt_def getPharFlags_def setCompressionType_def setContents_def setTimestamp_def
        setPermission_def page_globals_def thenE_def
        SUPPORTED_COMPRESSION_def COMPRESSION_NONE_def COMPRESSION_GZ_def)
  have crc: "uint (word_of_int (crc32 (contents a_txt)) :: 32 word)
               = crc32 (contents (a_txt\<lparr>timestamp := - 1\<rparr>))"
    by (simp add: crc32_reread)
  have add: "addFile (a_txt\<lparr>timestamp := - 1\<rparr>) this1
               = Inr (this1\<lparr>files := FilesArray [Some (a_txt\<lparr>timestamp := - 1\<rparr>)]\<rparr>)"
    by (simp add: addFile_def removeFile_def 0)
  have "load_file 0 stored_Zlib (page_globals, mb, cb0, this1)
          = Inr (page_globals, mb', cb', this1\<lparr>files := FilesArray [Some (a_txt\<lparr>timestamp := - 1\<rparr>)]\<rparr>)"
    unfolding 2 new by (simp only: thenE_def sum.case prod.case crc add) simp
  with 1 have "loadPharData page_globals 0 stored_Zlib first_octet_Hashes (Str (S1_encoding ''hi'')) fresh_Phar
          = Inr (page_globals, this1\<lparr>files := FilesArray [Some (a_txt\<lparr>timestamp := - 1\<rparr>)]\<rparr>)"
    by (simp add: thenE_def)
  with enc d show ?thesis by simp
qed

text \<open>The CRC slot of a manifest entry: the four octets after the name and the three
  numbers that follow it read back as the CRC-32/IEEE of the file's contents.\<close>

lemma manifest_entry_crc_slot:
  "readLInt (take 4 (drop (4 + length (name f) + 12) (manifest_entry f cs)))
     = crc32_ieee (contents f)"
proof -
  have "take 4 (drop (4 + length (name f) + 12) (manifest_entry f cs))
          = writeLInt (crc32 (contents f))"
    by (simp add: manifest_entry_def)
  moreover have "readLInt (writeLInt (crc32 (contents f))) = crc32 (contents f)"
    using readLInt_writeLInt_word [of "crc32 (contents f)"] crc32_reread [of "contents f"]
    by simp
  ultimately show ?thesis by (simp add: crc32_fold_ieee)
qed

text \<open>Claim C3. The CRC slot of an entry holds the CRC-32/IEEE of the file's contents
  before compression (that half is lemma \<open>manifest_entry_crc_slot\<close> with theorem
  \<open>crc32_is_crc32_ieee\<close>), and the decoder raises FileCorrupt whenever the stored CRC
  differs from the CRC-32 of the inflated contents. In the scope of the library the second
  half is not what the code does. The buffer of scenario S4 has a valid signature, its CRC
  slot holds the CRC of \<^verbatim>\<open>hi\<close> and its contents are \<^verbatim>\<open>hh\<close>, whose CRC is another; and
  \<^verbatim>\<open>loadPharData\<close> does not reach the comparison: the \<^verbatim>\<open>PharFile\<close> constructor, called
  before it, throws the ReferenceError for \<^verbatim>\<open>time\<close>.\<close>

theorem S4_corrupt_file_without_globals:
  "crc32 ''hh'' \<noteq> crc32 (contents a_txt)
   \<and> loadPharData no_globals 0 stored_Zlib first_octet_Hashes (Str S4_buffer) fresh_Phar
       = Inl (ReferenceError ''time'')"
proof -
  have crc: "crc32 ''hh'' \<noteq> crc32 (contents a_txt)"
    by (simp add: a_txt_def crc32_hi crc32_hh)
  obtain mb cb0 this1 mb' cb' where
    1: "loadPharData no_globals 0 stored_Zlib first_octet_Hashes (Str S4_buffer) fresh_Phar =
           thenE (thenE (load_file 0 stored_Zlib (no_globals, mb, cb0, this1)) (load_files (nat 1 - 1) 0 stored_Zlib))
             (\<lambda>(g1, m6, b3, this2). Inr (g1, this2))"
    and 2: "load_file 0 stored_Zlib (no_globals, mb, cb0, this1) =
           thenE (PharFile_new no_globals 0 stored_Zlib (name a_txt) ''hh'' (read_options a_txt))
             (\<lambda>(g1, file).
                if uint (word_of_int (crc32 (contents a_txt)) :: 32 word) \<noteq> crc32 (contents file)
                then Inl FileCorrupt
                else thenE (addFile file this1) (\<lambda>P1.
                       Inr (g1, mb', cb', P1)))"
    by (rule S4_first_file)
  have "PharFile_new no_globals 0 stored_Zlib (name a_txt) ''hh'' (read_options a_txt)
          = Inl (ReferenceError ''time'')"
    by (simp add: PharFile_new_without_globals read_options_def or_num_def Let_def a_txt_def
        getPharFlags_def SUPPORTED_COMPRESSION_def COMPRESSION_NONE_def COMPRESSION_GZ_def)
  with 1 2 crc show ?thesis by (simp add: thenE_def)
qed

end
